theory Spec2Isabelle
  imports Main "HOL-Library.Word"
begin

section \<open>Bytes, slices and the struct helpers\<close>

text \<open>
  A Python \<open>bytes\<close> object is a list of 8-bit words. Python integers are unbounded:
  the decoded value of a data point is an \<open>int\<close>; the header fields, the lengths, the
  offsets and the checksum, which are never negative and index the buffers, are \<open>nat\<close>.
\<close>

type_synonym byte = "8 word"
type_synonym bytes = "byte list"

text \<open>The exceptions the decoder could raise and does not catch.\<close>

datatype exn = StructError | IndexError

text \<open>\<open>xs[i:j]\<close> and \<open>xs[i:]\<close> for indices that are not negative: Python clips them.\<close>

definition slice_between :: "'a list \<Rightarrow> nat \<Rightarrow> nat \<Rightarrow> 'a list" where
  "slice_between xs i j = take (j - i) (drop i xs)"

definition slice_from :: "'a list \<Rightarrow> nat \<Rightarrow> 'a list" where
  "slice_from xs i = drop i xs"

text \<open>\<open>xs[i]\<close> raises IndexError out of range.\<close>

definition index :: "'a list \<Rightarrow> nat \<Rightarrow> exn + 'a" where
  "index xs i = (if i < length xs then Inr (xs ! i) else Inl IndexError)"

text \<open>The big-endian value of a byte string (\<open>int.from_bytes(b, 'big')\<close>).\<close>

definition be_int :: "bytes \<Rightarrow> int" where
  "be_int b = foldl (\<lambda>acc x. acc * 256 + uint x) 0 b"

text \<open>
  \<open>struct.unpack\<close> raises \<open>struct.error\<close> unless the buffer has exactly the size of
  the format: 4 bytes for \<open>'>BBH'\<close>, \<open>'>BHB'\<close>, \<open>'>i'\<close> and \<open>'>I'\<close>.
\<close>

definition unpack_BBH :: "bytes \<Rightarrow> (nat \<times> nat \<times> nat) option" where
  "unpack_BBH b =
     (case b of
        [b0, b1, b2, b3] \<Rightarrow> Some (unat b0, unat b1, unat b2 * 256 + unat b3)
      | _ \<Rightarrow> None)"

definition unpack_BHB :: "bytes \<Rightarrow> (nat \<times> nat \<times> nat) option" where
  "unpack_BHB b =
     (case b of
        [b0, b1, b2, b3] \<Rightarrow> Some (unat b0, unat b1 * 256 + unat b2, unat b3)
      | _ \<Rightarrow> None)"

definition unpack_I :: "bytes \<Rightarrow> int option" where
  "unpack_I b = (if length b = 4 then Some (be_int b) else None)"

definition unpack_i :: "bytes \<Rightarrow> int option" where
  "unpack_i b =
     (if length b = 4
      then Some (if be_int b < 2 ^ 31 then be_int b else be_int b - 2 ^ 32)
      else None)"

section \<open>The checksum\<close>

definition calculate_checksum :: "bytes \<Rightarrow> nat" where
  "calculate_checksum data = sum_list (map unat data) mod 256"

section \<open>The data units of a payload\<close>

text \<open>
  The value of the key \<open>dp_value\<close>: the raw bytes, a boolean, an integer, a decoded
  string, or the dictionary \<open>{"error": ..., "raw_value": ...}\<close> whose message is one of
  four formats with one number in it.
\<close>

datatype dp_value_error =
    InvalidValueLength nat
  | InvalidEnumLength nat
  | InvalidBitmapLength nat
  | UnknownDPType nat

datatype 'str dp_decoded =
    VRaw bytes
  | VBool bool
  | VInt int
  | VStr 'str
  | VError dp_value_error bytes

text \<open>
  An element of \<open>parsed_dps\<close>: one of the three dictionaries with an \<open>error\<close> key that
  end the loop, or the dictionary of a data unit.
\<close>

record 'str data_unit =
  dp_id :: nat
  dp_type :: nat
  dp_length :: nat
  dp_value :: "'str dp_decoded"
  raw_value :: bytes

datatype 'str dp_entry =
    IncompleteDataUnit bytes
  | HeaderUnpackFailed bytes
  | IncompleteValue nat nat nat bytes
  | Unit "'str data_unit"

text \<open>
  Lines 54 to 79: the decoding of the value by its type. The library call
  \<open>dp_value.decode('utf-8', errors='ignore')\<close> is the parameter \<open>dec\<close>, a total function.
  \<open>struct.unpack\<close> outside a \<open>try\<close> raises out of \<open>parse_data_units\<close>.
\<close>

definition decode_dp_value ::
  "(bytes \<Rightarrow> 'str) \<Rightarrow> nat \<Rightarrow> nat \<Rightarrow> bytes \<Rightarrow> exn + 'str dp_decoded" where
  "decode_dp_value dec ty len val =
     (if ty = 0 then Inr (VRaw val)
      else if ty = 1 then Inr (VBool (val = [1]))
      else if ty = 2 then
        (if len = 4
         then (case unpack_i val of None \<Rightarrow> Inl StructError | Some v \<Rightarrow> Inr (VInt v))
         else Inr (VError (InvalidValueLength len) val))
      else if ty = 3 then Inr (VStr (dec val))
      else if ty = 4 then
        (if len = 1
         then Inr (VInt (be_int val))
         else Inr (VError (InvalidEnumLength len) val))
      else if ty = 5 then
        (if len = 4
         then (case unpack_I val of None \<Rightarrow> Inl StructError | Some v \<Rightarrow> Inr (VInt v))
         else Inr (VError (InvalidBitmapLength len) val))
      else Inr (VError (UnknownDPType ty) val))"

text \<open>
  One iteration of the \<open>while\<close> loop of \<open>parse_data_units\<close>, entered with
  \<open>offset < len(data)\<close>: it breaks with the list, goes on with a new offset and list,
  or raises.
\<close>

datatype 'str loop_step =
    Break "'str dp_entry list"
  | Continue nat "'str dp_entry list"
  | Raise exn

definition parse_data_units_body ::
  "(bytes \<Rightarrow> 'str) \<Rightarrow> bytes \<Rightarrow> nat \<Rightarrow> 'str dp_entry list \<Rightarrow> 'str loop_step" where
  "parse_data_units_body dec data offset parsed_dps =
     (if offset + 4 > length data
      then Break (parsed_dps @ [IncompleteDataUnit (slice_from data offset)])
      else
        (case unpack_BBH (slice_between data offset (offset + 4)) of
           None \<Rightarrow> Break (parsed_dps @ [HeaderUnpackFailed (slice_from data offset)])
         | Some hdr \<Rightarrow>
            (let (i, ty, len) = hdr;
                 offset = offset + 4
             in if offset + len > length data
                then Break (parsed_dps @ [IncompleteValue i ty len (slice_from data (offset - 4))])
                else
                  (let val = slice_between data offset (offset + len);
                       offset = offset + len
                   in case decode_dp_value dec ty len val of
                        Inl e \<Rightarrow> Raise e
                      | Inr decoded \<Rightarrow>
                          Continue offset
                            (parsed_dps @
                              [Unit \<lparr>dp_id = i, dp_type = ty, dp_length = len,
                                     dp_value = decoded, raw_value = val\<rparr>])))))"

lemma parse_data_units_body_Continue:
  assumes "parse_data_units_body dec data offset parsed_dps = Continue offset' parsed_dps'"
  shows "offset + 4 \<le> offset' \<and> offset' \<le> length data"
  using assms
  by (auto simp: parse_data_units_body_def Let_def
      split: if_splits option.splits prod.splits sum.splits)

function parse_data_units_loop ::
  "(bytes \<Rightarrow> 'str) \<Rightarrow> bytes \<Rightarrow> nat \<Rightarrow> 'str dp_entry list \<Rightarrow> exn + 'str dp_entry list" where
  "parse_data_units_loop dec data offset parsed_dps =
     (if offset < length data
      then (case parse_data_units_body dec data offset parsed_dps of
              Break r \<Rightarrow> Inr r
            | Raise e \<Rightarrow> Inl e
            | Continue offset' parsed_dps' \<Rightarrow> parse_data_units_loop dec data offset' parsed_dps')
      else Inr parsed_dps)"
  by pat_completeness auto
termination
proof (relation "measure (\<lambda>(dec, data, offset, parsed_dps). length data - offset)")
  show "wf (measure (\<lambda>(dec, data, offset, parsed_dps). length data - offset))"
    by simp
next
  fix dec :: "bytes \<Rightarrow> 'str" and data offset parsed_dps offset' parsed_dps'
  assume "offset < length data"
    and "parse_data_units_body dec data offset parsed_dps = Continue offset' parsed_dps'"
  then show "((dec, data, offset', parsed_dps'), (dec, data, offset, parsed_dps))
      \<in> measure (\<lambda>(dec, data, offset, parsed_dps). length data - offset)"
    using parse_data_units_body_Continue [of dec data offset parsed_dps offset' parsed_dps']
    by auto
qed

declare parse_data_units_loop.simps [simp del]

definition parse_data_units :: "(bytes \<Rightarrow> 'str) \<Rightarrow> bytes \<Rightarrow> exn + 'str dp_entry list" where
  "parse_data_units dec data = parse_data_units_loop dec data 0 []"

text \<open>
  For the statements about the returned list: whether an element is the dictionary of a
  data unit, and the number of payload bytes a data unit takes (its header of 4 bytes and
  its value).
\<close>

fun is_unit :: "'str dp_entry \<Rightarrow> bool" where
  "is_unit (Unit u) = True"
| "is_unit _ = False"

fun unit_bytes :: "'str dp_entry \<Rightarrow> nat" where
  "unit_bytes (Unit u) = 4 + dp_length u"
| "unit_bytes _ = 0"

section \<open>The packet decoder\<close>

text \<open>\<open>xs[:j]\<close>.\<close>

definition slice_to :: "'a list \<Rightarrow> nat \<Rightarrow> 'a list" where
  "slice_to xs j = take j xs"

text \<open>
  The four dictionaries with an \<open>error\<close> key that \<open>parse_tuya_packet\<close> returns; the
  checksum mismatch carries \<open>calculated\<close>, \<open>received\<close> and \<open>raw_data\<close>.
\<close>

datatype packet_error =
    PacketTooShort bytes
  | HeaderFieldsUnpackFailed bytes
  | PacketTooShortForLength nat bytes
  | ChecksumMismatch nat nat bytes

record 'str packet =
  version :: nat
  command :: nat
  data_length :: nat
  data :: bytes
  checksum :: nat
  parsed_data_units :: "'str dp_entry list"

datatype 'str parsed_packet =
    PacketError packet_error
  | Packet "'str packet"

definition parse_tuya_packet :: "(bytes \<Rightarrow> 'str) \<Rightarrow> bytes \<Rightarrow> exn + 'str parsed_packet" where
  "parse_tuya_packet dec packet_data =
     (if length packet_data < 7
      then Inr (PacketError (PacketTooShort packet_data))
      else
        (case unpack_BHB (slice_between packet_data 2 6) of
           None \<Rightarrow> Inr (PacketError (HeaderFieldsUnpackFailed packet_data))
         | Some hdr \<Rightarrow>
            (let (ver, cmd, len) = hdr;
                 expected_packet_size = 6 + len + 1
             in if length packet_data < expected_packet_size
                then Inr (PacketError (PacketTooShortForLength len packet_data))
                else
                  (let payload = slice_between packet_data 6 (6 + len)
                   in case index packet_data (6 + len) of
                        Inl e \<Rightarrow> Inl e
                      | Inr b \<Rightarrow>
                         (let received_checksum = unat b;
                              calculated_checksum = calculate_checksum (slice_to packet_data (6 + len))
                          in if calculated_checksum \<noteq> received_checksum
                             then Inr (PacketError
                                    (ChecksumMismatch calculated_checksum received_checksum packet_data))
                             else
                               (case parse_data_units dec payload of
                                  Inl e \<Rightarrow> Inl e
                                | Inr parsed_data \<Rightarrow>
                                    Inr (Packet \<lparr>version = ver, command = cmd, data_length = len,
                                                 data = payload, checksum = received_checksum,
                                                 parsed_data_units = parsed_data\<rparr>)))))))"

section \<open>The frame extractor\<close>

definition PACKET_MARKER :: bytes where
  "PACKET_MARKER = [0x55, 0xAA]"

text \<open>
  \<open>s.find(sub)\<close>: the lowest index where \<open>sub\<close> occurs in \<open>s\<close>, \<open>None\<close> for -1.
  \<open>sub in s\<close> is \<open>s.find(sub) != -1\<close>.
\<close>

fun bytes_find :: "bytes \<Rightarrow> bytes \<Rightarrow> nat option" where
  "bytes_find sub [] = (if sub = [] then Some 0 else None)"
| "bytes_find sub (x # xs) =
     (if take (length sub) (x # xs) = sub then Some 0
      else map_option Suc (bytes_find sub xs))"

definition bytes_in :: "bytes \<Rightarrow> bytes \<Rightarrow> bool" where
  "bytes_in sub s = (bytes_find sub s \<noteq> None)"

text \<open>
  Lines 174 to 191, the test and the first half of one iteration of the loop
  \<open>while PACKET_MARKER in buffer\<close>: \<open>None\<close> when the marker is not in the buffer
  (the loop ends), otherwise the bytes before the marker when there are some,
  \<open>packet_data\<close>, and the new buffer.
\<close>

definition extract_frame :: "bytes \<Rightarrow> (bytes option \<times> bytes \<times> bytes) option" where
  "extract_frame buffer =
     (case bytes_find PACKET_MARKER buffer of
        None \<Rightarrow> None
      | Some marker_index \<Rightarrow>
          (let unexpected = (if marker_index > 0 then Some (slice_to buffer marker_index) else None);
               buffer = (if marker_index > 0 then slice_from buffer marker_index else buffer);
               buffer = slice_from buffer (length PACKET_MARKER)
           in case bytes_find PACKET_MARKER buffer of
                None \<Rightarrow> Some (unexpected, buffer, [])
              | Some next_marker_index \<Rightarrow>
                  Some (unexpected, slice_to buffer next_marker_index,
                        slice_from buffer next_marker_index)))"

text \<open>
  What the loop prints: the dump of unexpected bytes, and for each packet its number,
  the frame \<open>PACKET_MARKER + packet_data\<close> that is dumped and parsed, and the result.
\<close>

datatype 'str event =
    UnexpectedData bytes
  | PacketSeen nat bytes "'str parsed_packet"

lemma bytes_find_Some:
  "bytes_find sub s = Some i \<Longrightarrow> i + length sub \<le> length s \<and> take (length sub) (drop i s) = sub"
proof (induction s arbitrary: i)
  case Nil
  then show ?case by (simp split: if_splits)
next
  case (Cons x xs)
  show ?case
  proof (cases "take (length sub) (x # xs) = sub")
    case True
    with Cons.prems have "i = 0" by simp
    moreover have "length sub \<le> length (x # xs)"
    proof -
      have "length (take (length sub) (x # xs)) = length sub"
        using True by simp
      then show ?thesis by (simp del: take_Suc_Cons)
    qed
    ultimately show ?thesis using True by simp
  next
    case False
    with Cons.prems obtain j where j: "bytes_find sub xs = Some j" "i = Suc j"
      by auto
    from Cons.IH [OF j(1)] j(2) show ?thesis by simp
  qed
qed

lemma extract_frame_shorter:
  assumes "extract_frame buffer = Some (unexpected, packet_data, buffer')"
  shows "length buffer' < length buffer"
proof -
  from assms obtain m where m: "bytes_find PACKET_MARKER buffer = Some m"
    by (auto simp: extract_frame_def split: option.splits)
  from bytes_find_Some [OF m] have len: "m + 2 \<le> length buffer"
    by (simp add: PACKET_MARKER_def)
  have rest: "(if m > 0 then slice_from buffer m else buffer) = drop m buffer"
    by (simp add: slice_from_def)
  show ?thesis
  proof (cases "bytes_find PACKET_MARKER (drop 2 (drop m buffer))")
    case None
    with assms m rest have "buffer' = []"
      by (simp add: extract_frame_def Let_def slice_from_def PACKET_MARKER_def)
    with len show ?thesis by auto
  next
    case (Some n)
    with assms m rest have "buffer' = drop n (drop 2 (drop m buffer))"
      by (simp add: extract_frame_def Let_def slice_from_def PACKET_MARKER_def)
    with len show ?thesis by simp
  qed
qed

text \<open>
  The loop \<open>while PACKET_MARKER in buffer\<close>. An exception of the parser would reach
  the handler of line 227, which ends the function: \<open>Inl\<close>, with the exception and
  what was printed before the dump of this packet.
\<close>

function drain_buffer ::
  "(bytes \<Rightarrow> 'str) \<Rightarrow> bytes \<Rightarrow> nat \<Rightarrow> 'str event list
     \<Rightarrow> (exn \<times> 'str event list) + (bytes \<times> nat \<times> 'str event list)" where
  "drain_buffer dec buffer packet_count out =
     (case extract_frame buffer of
        None \<Rightarrow> Inr (buffer, packet_count, out)
      | Some (unexpected, packet_data, buffer') \<Rightarrow>
          (case parse_tuya_packet dec (PACKET_MARKER @ packet_data) of
             Inl e \<Rightarrow>
               Inl (e, (case unexpected of None \<Rightarrow> out | Some u \<Rightarrow> out @ [UnexpectedData u]))
           | Inr parsed_packet \<Rightarrow>
               drain_buffer dec buffer' (packet_count + 1)
                 ((case unexpected of None \<Rightarrow> out | Some u \<Rightarrow> out @ [UnexpectedData u]) @
                  [PacketSeen (packet_count + 1) (PACKET_MARKER @ packet_data) parsed_packet])))"
  by pat_completeness auto
termination
proof (relation "measure (\<lambda>(dec, buffer, packet_count, out). length buffer)")
  show "wf (measure (\<lambda>(dec, buffer, packet_count, out). length buffer))"
    by simp
next
  fix dec :: "bytes \<Rightarrow> 'str" and buffer packet_count out x2 x y x2a ya x2b
  assume "extract_frame buffer = Some x2" and "(x, y) = x2" and "(x2a, ya) = y"
  then have "extract_frame buffer = Some (x, x2a, ya)"
    by simp
  then show "((dec, ya, packet_count + 1,
       (case x of None \<Rightarrow> out | Some u \<Rightarrow> out @ [UnexpectedData u]) @
       [PacketSeen (packet_count + 1) (PACKET_MARKER @ x2a) x2b]),
      (dec, buffer, packet_count, out))
      \<in> measure (\<lambda>(dec, buffer, packet_count, out). length buffer)"
    using extract_frame_shorter [of buffer x x2a ya] by simp
qed

declare drain_buffer.simps [simp del]

text \<open>
  The outer loop, over the chunks that \<open>ser.read(1024)\<close> returns one after the other;
  an empty chunk is skipped.
\<close>

fun read_loop ::
  "(bytes \<Rightarrow> 'str) \<Rightarrow> bytes list \<Rightarrow> bytes \<Rightarrow> nat \<Rightarrow> 'str event list
     \<Rightarrow> (exn \<times> 'str event list) + (bytes \<times> nat \<times> 'str event list)" where
  "read_loop dec [] buffer packet_count out = Inr (buffer, packet_count, out)"
| "read_loop dec (chunk # chunks) buffer packet_count out =
     (if chunk = [] then read_loop dec chunks buffer packet_count out
      else
        (case drain_buffer dec (buffer @ chunk) packet_count out of
           Inl e \<Rightarrow> Inl e
         | Inr (buffer', packet_count', out') \<Rightarrow> read_loop dec chunks buffer' packet_count' out'))"

definition read_and_hexdump_packets ::
  "(bytes \<Rightarrow> 'str) \<Rightarrow> bytes list \<Rightarrow> (exn \<times> 'str event list) + (bytes \<times> nat \<times> 'str event list)" where
  "read_and_hexdump_packets dec chunks = read_loop dec chunks [] 0 []"

text \<open>
  For the statements about what the loop prints: the bytes of an event (the dumped
  bytes, or the frame), and what holds of every event: a frame is parsed with the result
  that is printed, starts with the marker and has no marker after it; a dump of
  unexpected data is not empty and contains no marker.
\<close>

fun event_bytes :: "'str event \<Rightarrow> bytes" where
  "event_bytes (UnexpectedData u) = u"
| "event_bytes (PacketSeen k f r) = f"

fun candidate_ok :: "(bytes \<Rightarrow> 'str) \<Rightarrow> 'str event \<Rightarrow> bool" where
  "candidate_ok dec (UnexpectedData u) = False"
| "candidate_ok dec (PacketSeen k f r) =
     (parse_tuya_packet dec f = Inr r \<and> take 2 f = PACKET_MARKER
      \<and> \<not> bytes_in PACKET_MARKER (drop 2 f))"

fun event_ok :: "(bytes \<Rightarrow> 'str) \<Rightarrow> 'str event \<Rightarrow> bool" where
  "event_ok dec (UnexpectedData u) = (u \<noteq> [] \<and> \<not> bytes_in PACKET_MARKER u)"
| "event_ok dec (PacketSeen k f r) = candidate_ok dec (PacketSeen k f r)"

text \<open>
  The closed examples below need a decoder for the parameter \<open>dec\<close>: this one keeps
  the bytes as they are.
\<close>

definition keep_bytes :: "bytes \<Rightarrow> bytes" where
  "keep_bytes b = b"

section \<open>Properties of the checksum\<close>

lemma unat_sum_list_byte: "unat (sum_list (b :: bytes)) = sum_list (map unat b) mod 256"
proof (induction b)
  case Nil
  show ?case by simp
next
  case (Cons x xs)
  have "unat (x + sum_list xs) = (unat x + unat (sum_list xs)) mod 256"
    by (simp add: unat_word_ariths)
  also have "\<dots> = (unat x + sum_list (map unat xs) mod 256) mod 256"
    using Cons.IH by simp
  also have "\<dots> = (unat x + sum_list (map unat xs)) mod 256"
    by (rule mod_add_right_eq)
  finally show ?case by simp
qed

text \<open>
  C6. For every byte sequence \<open>b\<close>, the empty one included, \<open>calculate_checksum b\<close> is
  the sum of the bytes modulo 256, which is the sum computed in 8 bits (the low 8 bits
  of the sum), and lies between 0 and 255. The function is total: it has no error
  result, and it returns nothing but the number.
\<close>

theorem calculate_checksum_spec:
  "calculate_checksum b = sum_list (map unat b) mod 256
   \<and> calculate_checksum b = unat (sum_list b)
   \<and> 0 \<le> calculate_checksum b \<and> calculate_checksum b \<le> 255
   \<and> calculate_checksum [] = 0"
proof -
  have "sum_list (map unat b) mod 256 < 256" by simp
  then show ?thesis
    by (simp add: calculate_checksum_def unat_sum_list_byte)
qed

section \<open>Properties of the data-unit decoder\<close>

lemma take_Suc_drop:
  assumes "i < length xs"
  shows "take (Suc n) (drop i xs) = xs ! i # take n (drop (Suc i) xs)"
proof -
  have "drop i xs = xs ! i # drop (Suc i) xs"
    using assms by (rule Cons_nth_drop_Suc [symmetric])
  then show ?thesis by simp
qed

lemma slice_4:
  assumes "offset + 4 \<le> length d"
  shows "slice_between d offset (offset + 4)
    = [d ! offset, d ! (offset + 1), d ! (offset + 2), d ! (offset + 3)]"
proof -
  have "take (Suc (Suc (Suc (Suc 0)))) (drop offset d)
      = [d ! offset, d ! Suc offset, d ! Suc (Suc offset), d ! Suc (Suc (Suc offset))]"
    using assms by (simp add: take_Suc_drop)
  moreover have "offset + 4 - offset = Suc (Suc (Suc (Suc 0)))" by simp
  ultimately show ?thesis
    by (simp add: slice_between_def eval_nat_numeral)
qed

lemma decode_dp_value_no_raise:
  assumes "length v = len"
  shows "\<exists>d. decode_dp_value dec ty len v = Inr d"
  using assms by (simp add: decode_dp_value_def unpack_i_def unpack_I_def)

lemma parse_data_units_body_eq:
  "parse_data_units_body dec d offset acc =
     (if length d < offset + 4 then Break (acc @ [IncompleteDataUnit (drop offset d)])
      else if length d < offset + 4 + (unat (d ! (offset + 2)) * 256 + unat (d ! (offset + 3)))
      then Break (acc @ [IncompleteValue (unat (d ! offset)) (unat (d ! (offset + 1)))
                   (unat (d ! (offset + 2)) * 256 + unat (d ! (offset + 3))) (drop offset d)])
      else
        (case decode_dp_value dec (unat (d ! (offset + 1)))
                (unat (d ! (offset + 2)) * 256 + unat (d ! (offset + 3)))
                (slice_between d (offset + 4)
                   (offset + 4 + (unat (d ! (offset + 2)) * 256 + unat (d ! (offset + 3))))) of
           Inl e \<Rightarrow> Raise e
         | Inr decoded \<Rightarrow>
             Continue (offset + 4 + (unat (d ! (offset + 2)) * 256 + unat (d ! (offset + 3))))
               (acc @ [Unit \<lparr>dp_id = unat (d ! offset), dp_type = unat (d ! (offset + 1)),
                              dp_length = unat (d ! (offset + 2)) * 256 + unat (d ! (offset + 3)),
                              dp_value = decoded,
                              raw_value = slice_between d (offset + 4)
                                (offset + 4 + (unat (d ! (offset + 2)) * 256 + unat (d ! (offset + 3))))\<rparr>])))"
proof (cases "length d < offset + 4")
  case True
  then show ?thesis
    by (simp add: parse_data_units_body_def slice_from_def)
next
  case False
  then have "offset + 4 \<le> length d" by simp
  from slice_4 [OF this] False show ?thesis
    by (simp add: parse_data_units_body_def unpack_BBH_def slice_from_def Let_def
        split: sum.splits)
qed

lemma parse_data_units_body_no_raise:
  "parse_data_units_body dec d offset acc \<noteq> Raise e"
proof -
  let ?len = "unat (d ! (offset + 2)) * 256 + unat (d ! (offset + 3))"
  show ?thesis
  proof (cases "length d < offset + 4 + ?len")
    case True
    then show ?thesis
      by (simp add: parse_data_units_body_eq)
  next
    case False
    then have "length (slice_between d (offset + 4) (offset + 4 + ?len)) = ?len"
      by (simp add: slice_between_def)
    from decode_dp_value_no_raise [OF this]
    obtain dv where "decode_dp_value dec (unat (d ! (offset + 1))) ?len
        (slice_between d (offset + 4) (offset + 4 + ?len)) = Inr dv"
      by blast
    then show ?thesis
      by (simp add: parse_data_units_body_eq)
  qed
qed

lemma parse_data_units_body_Break:
  assumes "parse_data_units_body dec d offset acc = Break r"
  shows "\<exists>e. r = acc @ [e] \<and> \<not> is_unit e"
  using assms
  by (auto simp: parse_data_units_body_eq split: if_splits sum.splits)

lemma parse_data_units_body_Continue_unit:
  assumes "parse_data_units_body dec d offset acc = Continue offset' acc'"
  shows "\<exists>u. acc' = acc @ [Unit u] \<and> offset' = offset + 4 + dp_length u
     \<and> offset' \<le> length d \<and> raw_value u = slice_between d (offset + 4) offset'
     \<and> length (raw_value u) = dp_length u"
  using assms
  by (auto simp: parse_data_units_body_eq slice_between_def split: if_splits sum.splits)

lemma parse_data_units_loop_result:
  "\<exists>rs. parse_data_units_loop dec d offset acc = Inr (acc @ rs)
     \<and> length rs \<le> (length d - offset) div 4 + 1
     \<and> list_all is_unit (butlast rs)
     \<and> sum_list (map unit_bytes rs) \<le> length d - offset"
proof (induction dec d offset acc rule: parse_data_units_loop.induct)
  case (1 dec d offset acc)
  show ?case
  proof (cases "offset < length d")
    case False
    then have "parse_data_units_loop dec d offset acc = Inr (acc @ [])"
      by (simp add: parse_data_units_loop.simps)
    then show ?thesis by force
  next
    case True
    show ?thesis
    proof (cases "parse_data_units_body dec d offset acc")
      case (Break r)
      from parse_data_units_body_Break [OF Break]
      obtain e where e: "r = acc @ [e]" "\<not> is_unit e" by blast
      from True Break e have "parse_data_units_loop dec d offset acc = Inr (acc @ [e])"
        by (simp add: parse_data_units_loop.simps)
      moreover from e(2) have "sum_list (map unit_bytes [e]) = 0"
        by (cases e) simp_all
      ultimately show ?thesis by force
    next
      case (Raise e)
      with parse_data_units_body_no_raise show ?thesis by blast
    next
      case (Continue offset' acc')
      from parse_data_units_body_Continue_unit [OF Continue]
      obtain u where u: "acc' = acc @ [Unit u]" "offset' = offset + 4 + dp_length u"
        "offset' \<le> length d"
        by blast
      from "1.IH" [OF True Continue]
      obtain rs where rs: "parse_data_units_loop dec d offset' acc' = Inr (acc' @ rs)"
        "length rs \<le> (length d - offset') div 4 + 1"
        "list_all is_unit (butlast rs)"
        "sum_list (map unit_bytes rs) \<le> length d - offset'"
        by blast
      from True Continue rs(1) u(1)
      have "parse_data_units_loop dec d offset acc = Inr (acc @ (Unit u # rs))"
        by (simp add: parse_data_units_loop.simps)
      moreover have "length (Unit u # rs) \<le> (length d - offset) div 4 + 1"
      proof -
        from u have "length d - offset' + 4 \<le> length d - offset" by simp
        then have "(length d - offset' + 4) div 4 \<le> (length d - offset) div 4"
          by (rule div_le_mono)
        with rs(2) show ?thesis by simp
      qed
      moreover from rs(3) have "list_all is_unit (butlast (Unit u # rs))"
        by simp
      moreover from rs(4) u have "sum_list (map unit_bytes (Unit u # rs)) \<le> length d - offset"
        by simp
      ultimately show ?thesis by blast
    qed
  qed
qed

lemma slice_append_shift:
  "slice_between (pre @ d) (length pre + i) (length pre + j) = slice_between d i j"
  by (simp add: slice_between_def)

lemma parse_data_units_body_shift:
  "parse_data_units_body dec (pre @ d) (length pre + offset) (acc @ acc0) =
     (case parse_data_units_body dec d offset acc0 of
        Break r \<Rightarrow> Break (acc @ r)
      | Continue offset' acc' \<Rightarrow> Continue (length pre + offset') (acc @ acc')
      | Raise e \<Rightarrow> Raise e)"
proof -
  have nth: "\<And>k. (pre @ d) ! (length pre + offset + k) = d ! (offset + k)"
    by (simp add: nth_append)
  have nth0: "(pre @ d) ! (length pre + offset) = d ! offset"
    by (simp add: nth_append)
  have nth1: "(pre @ d) ! Suc (length pre + offset) = d ! Suc offset"
    using nth [of 1] by simp
  have nth2: "(pre @ d) ! Suc (Suc (length pre + offset)) = d ! Suc (Suc offset)"
    using nth [of 2] by simp
  have sl: "\<And>j. slice_between (pre @ d) (length pre + offset + 4) (length pre + offset + 4 + j)
      = slice_between d (offset + 4) (offset + 4 + j)"
    using slice_append_shift [of pre d "offset + 4"] by (simp add: add.assoc)
  show ?thesis
    by (simp add: parse_data_units_body_eq [of dec "pre @ d"] parse_data_units_body_eq [of dec d]
        nth nth0 nth1 nth2 sl split: sum.splits)
qed

lemma parse_data_units_loop_shift:
  "parse_data_units_loop dec (pre @ d) (length pre + offset) (acc @ acc0) =
     (case parse_data_units_loop dec d offset acc0 of
        Inl e \<Rightarrow> Inl e
      | Inr rs \<Rightarrow> Inr (acc @ rs))"
proof (induction dec d offset acc0 rule: parse_data_units_loop.induct)
  case (1 dec d offset acc0)
  show ?case
  proof (cases "offset < length d")
    case False
    then show ?thesis
      by (simp add: parse_data_units_loop.simps [of dec d]
          parse_data_units_loop.simps [of dec "pre @ d"])
  next
    case True
    show ?thesis
    proof (cases "parse_data_units_body dec d offset acc0")
      case (Break r)
      with True show ?thesis
        by (simp add: parse_data_units_loop.simps [of dec d offset]
            parse_data_units_loop.simps [of dec "pre @ d" "length pre + offset"]
            parse_data_units_body_shift)
    next
      case (Raise e)
      with True show ?thesis
        by (simp add: parse_data_units_loop.simps [of dec d offset]
            parse_data_units_loop.simps [of dec "pre @ d" "length pre + offset"]
            parse_data_units_body_shift)
    next
      case (Continue offset' acc')
      from "1.IH" [OF True Continue] True Continue show ?thesis
        by (simp add: parse_data_units_loop.simps [of dec d offset]
            parse_data_units_loop.simps [of dec "pre @ d" "length pre + offset"]
            parse_data_units_body_shift)
    qed
  qed
qed

lemma parse_data_units_total: "\<exists>rs. parse_data_units dec d = Inr rs"
  using parse_data_units_loop_result [of dec d 0 "[]"]
  by (auto simp: parse_data_units_def)

lemma parse_data_units_body_extend:
  assumes "parse_data_units_body dec pre offset acc = Continue offset' acc'"
  shows "parse_data_units_body dec (pre @ d) offset acc = Continue offset' acc'"
proof -
  let ?len = "unat (pre ! (offset + 2)) * 256 + unat (pre ! (offset + 3))"
  from assms have len: "offset + 4 + ?len \<le> length pre"
    by (auto simp: parse_data_units_body_eq split: if_splits)
  then have nth: "\<And>k. k < 4 \<Longrightarrow> (pre @ d) ! (offset + k) = pre ! (offset + k)"
    by (simp add: nth_append)
  have n0: "(pre @ d) ! offset = pre ! offset"
    using nth [of 0] by simp
  have n1: "(pre @ d) ! (offset + 1) = pre ! (offset + 1)"
    using nth [of 1] by simp
  have n2: "(pre @ d) ! (offset + 2) = pre ! (offset + 2)"
    using nth [of 2] by simp
  have n3: "(pre @ d) ! (offset + 3) = pre ! (offset + 3)"
    using nth [of 3] by simp
  have sl: "slice_between (pre @ d) (offset + 4) (offset + 4 + ?len) = slice_between pre (offset + 4) (offset + 4 + ?len)"
    using len by (simp add: slice_between_def)
  have "parse_data_units_body dec (pre @ d) offset acc = parse_data_units_body dec pre offset acc"
    unfolding parse_data_units_body_eq [of dec "pre @ d"] parse_data_units_body_eq [of dec pre]
      n0 n1 n2 n3 sl
    using len by simp
  with assms show ?thesis by simp
qed

lemma parse_data_units_loop_extend:
  assumes "offset \<le> length pre"
    and "parse_data_units_loop dec pre offset acc = Inr r"
    and "list_all is_unit r"
  shows "parse_data_units_loop dec (pre @ d) offset acc
    = parse_data_units_loop dec (pre @ d) (length pre) r"
  using assms
proof (induction dec pre offset acc rule: parse_data_units_loop.induct)
  case (1 dec pre offset acc)
  show ?case
  proof (cases "offset < length pre")
    case False
    with "1.prems"(1) have "offset = length pre" by simp
    moreover from False "1.prems"(2) have "r = acc"
      by (simp add: parse_data_units_loop.simps)
    ultimately show ?thesis by simp
  next
    case True
    show ?thesis
    proof (cases "parse_data_units_body dec pre offset acc")
      case (Break r')
      from parse_data_units_body_Break [OF Break]
      obtain e where e: "r' = acc @ [e]" "\<not> is_unit e" by blast
      from True Break "1.prems"(2) have "r = r'"
        by (simp add: parse_data_units_loop.simps)
      with e "1.prems"(3) show ?thesis by simp
    next
      case (Raise e)
      with parse_data_units_body_no_raise show ?thesis by blast
    next
      case (Continue offset' acc')
      from parse_data_units_body_Continue [OF Continue] have le: "offset' \<le> length pre"
        by simp
      from True Continue "1.prems"(2) have "parse_data_units_loop dec pre offset' acc' = Inr r"
        by (simp add: parse_data_units_loop.simps)
      from "1.IH" [OF True Continue le this "1.prems"(3)]
      have "parse_data_units_loop dec (pre @ d) offset' acc'
          = parse_data_units_loop dec (pre @ d) (length pre) r" .
      moreover from True parse_data_units_body_extend [OF Continue, of d]
      have "parse_data_units_loop dec (pre @ d) offset acc
          = parse_data_units_loop dec (pre @ d) offset' acc'"
        by (simp add: parse_data_units_loop.simps [of dec "pre @ d" offset])
      ultimately show ?thesis by simp
    qed
  qed
qed

lemma parse_data_units_append:
  assumes "parse_data_units dec pre = Inr us" and "list_all is_unit us"
  shows "parse_data_units dec (pre @ d) =
    (case parse_data_units dec d of Inl e \<Rightarrow> Inl e | Inr rs \<Rightarrow> Inr (us @ rs))"
proof -
  from assms have "parse_data_units_loop dec (pre @ d) 0 []
      = parse_data_units_loop dec (pre @ d) (length pre) us"
    using parse_data_units_loop_extend [of 0 pre dec "[]" us d]
    by (simp add: parse_data_units_def)
  also have "\<dots> = (case parse_data_units_loop dec d 0 [] of
      Inl e \<Rightarrow> Inl e | Inr rs \<Rightarrow> Inr (us @ rs))"
    using parse_data_units_loop_shift [of dec pre d 0 us "[]"] by simp
  finally show ?thesis
    by (simp add: parse_data_units_def)
qed

lemma parse_data_units_body_header:
  assumes "slice_between d offset (offset + 4) = [i, ty, hi, lo]"
    and "length v = unat hi * 256 + unat lo"
    and "slice_between d (offset + 4) (offset + 4 + length v) = v"
    and "offset + 4 + length v \<le> length d"
    and "decode_dp_value dec (unat ty) (length v) v = Inr decoded"
  shows "parse_data_units_body dec d offset acc =
    Continue (offset + 4 + length v)
      (acc @ [Unit \<lparr>dp_id = unat i, dp_type = unat ty, dp_length = length v,
                      dp_value = decoded, raw_value = v\<rparr>])"
proof -
  from assms(4) have "\<not> length d < offset + 4" by simp
  moreover from assms(2,4) have "\<not> length d < offset + 4 + (unat hi * 256 + unat lo)" by simp
  moreover from assms(2,3)
  have "slice_between d (offset + 4) (offset + 4 + (unat hi * 256 + unat lo)) = v" by simp
  moreover from assms(2,5)
  have "decode_dp_value dec (unat ty) (unat hi * 256 + unat lo) v = Inr decoded" by simp
  ultimately show ?thesis
    using assms(1,2)
    by (simp add: parse_data_units_body_def unpack_BBH_def Let_def)
qed

lemma parse_data_units_one_unit:
  assumes "length v = unat hi * 256 + unat lo"
    and "decode_dp_value dec (unat ty) (length v) v = Inr decoded"
  shows "parse_data_units dec ([i, ty, hi, lo] @ v) =
    Inr [Unit \<lparr>dp_id = unat i, dp_type = unat ty, dp_length = length v,
                dp_value = decoded, raw_value = v\<rparr>]"
proof -
  define d where "d = [i, ty, hi, lo] @ v"
  have len: "length d = 4 + length v"
    by (simp add: d_def)
  have "parse_data_units_body dec d 0 [] =
      Continue (0 + 4 + length v)
        ([] @ [Unit \<lparr>dp_id = unat i, dp_type = unat ty, dp_length = length v,
                dp_value = decoded, raw_value = v\<rparr>])"
  proof (rule parse_data_units_body_header)
    show "slice_between d 0 (0 + 4) = [i, ty, hi, lo]" by (simp add: d_def slice_between_def)
    show "slice_between d (0 + 4) (0 + 4 + length v) = v" by (simp add: d_def slice_between_def)
    show "0 + 4 + length v \<le> length d" by (simp add: len)
  qed (rule assms)+
  then have body: "parse_data_units_body dec d 0 [] =
      Continue (4 + length v)
        [Unit \<lparr>dp_id = unat i, dp_type = unat ty, dp_length = length v,
                dp_value = decoded, raw_value = v\<rparr>]"
    by simp
  have "parse_data_units_loop dec d 0 [] =
      parse_data_units_loop dec d (4 + length v)
        [Unit \<lparr>dp_id = unat i, dp_type = unat ty, dp_length = length v,
                dp_value = decoded, raw_value = v\<rparr>]"
    by (subst parse_data_units_loop.simps) (use body len in simp)
  also have "\<dots> = Inr [Unit \<lparr>dp_id = unat i, dp_type = unat ty, dp_length = length v,
                dp_value = decoded, raw_value = v\<rparr>]"
    by (subst parse_data_units_loop.simps) (use len in simp)
  finally show ?thesis
    by (simp add: parse_data_units_def d_def)
qed

lemma parse_data_units_unit_between:
  assumes "parse_data_units dec pre = Inr us" and "list_all is_unit us"
    and "length v = unat hi * 256 + unat lo"
    and "decode_dp_value dec (unat ty) (length v) v = Inr decoded"
  shows "\<exists>rs. parse_data_units dec rest = Inr rs \<and>
    parse_data_units dec (pre @ [i, ty, hi, lo] @ v @ rest) =
      Inr (us @ Unit \<lparr>dp_id = unat i, dp_type = unat ty, dp_length = length v,
                        dp_value = decoded, raw_value = v\<rparr> # rs)"
proof -
  obtain rs where rs: "parse_data_units dec rest = Inr rs"
    using parse_data_units_total by blast
  let ?u = "Unit \<lparr>dp_id = unat i, dp_type = unat ty, dp_length = length v,
                    dp_value = decoded, raw_value = v\<rparr>"
  have one: "parse_data_units dec ([i, ty, hi, lo] @ v) = Inr [?u]"
    using assms(3,4) by (rule parse_data_units_one_unit)
  have "parse_data_units dec (([i, ty, hi, lo] @ v) @ rest) = Inr ([?u] @ rs)"
    using parse_data_units_append [OF one, of rest] rs by simp
  then have "parse_data_units dec (pre @ (([i, ty, hi, lo] @ v) @ rest)) = Inr (us @ [?u] @ rs)"
    using parse_data_units_append [OF assms(1,2), of "([i, ty, hi, lo] @ v) @ rest"] by simp
  with rs show ?thesis by simp
qed

text \<open>
  C4. A data unit of type 2 (the 4-byte integer) whose declared length is not 4, standing
  after any payload \<open>pre\<close> that decodes to data units only, is appended as the
  dictionary of a data unit whose \<open>dp_value\<close> is the invalid-length error with the raw
  value bytes, and the loop goes on: the rest of the payload is decoded as it is decoded
  alone, so a well-formed unit after it decodes as usual.
\<close>

theorem integer32_invalid_length_not_fatal:
  assumes "parse_data_units dec pre = Inr us" and "list_all is_unit us"
    and "length v = unat hi * 256 + unat lo" and "length v \<noteq> 4"
  shows "\<exists>rs. parse_data_units dec rest = Inr rs \<and>
    parse_data_units dec (pre @ [i, 2, hi, lo] @ v @ rest) =
      Inr (us @ Unit \<lparr>dp_id = unat i, dp_type = 2, dp_length = length v,
                        dp_value = VError (InvalidValueLength (length v)) v,
                        raw_value = v\<rparr> # rs)"
proof -
  from assms(4) have "decode_dp_value dec (unat (2 :: byte)) (length v) v
      = Inr (VError (InvalidValueLength (length v)) v)"
    by (simp add: decode_dp_value_def)
  from parse_data_units_unit_between [OF assms(1,2,3) this, of rest i]
  show ?thesis by simp
qed

theorem integer32_invalid_length_not_fatal_witness:
  "parse_data_units keep_bytes [9, 1, 0, 1, 1] =
     Inr [Unit \<lparr>dp_id = 9, dp_type = 1, dp_length = 1, dp_value = VBool True, raw_value = [1]\<rparr>]
   \<and> list_all is_unit
        [Unit \<lparr>dp_id = 9, dp_type = 1, dp_length = 1, dp_value = VBool True,
                raw_value = [1]\<rparr> :: bytes dp_entry]
   \<and> length [0, 0, 0x7B :: byte] = unat (0 :: byte) * 256 + unat (3 :: byte)
   \<and> length [0, 0, 0x7B :: byte] \<noteq> 4
   \<and> parse_data_units keep_bytes
        ([9, 1, 0, 1, 1] @ [1, 2, 0, 3] @ [0, 0, 0x7B] @ [2, 2, 0, 4, 0, 0, 0, 0x7B]) =
       Inr [Unit \<lparr>dp_id = 9, dp_type = 1, dp_length = 1, dp_value = VBool True, raw_value = [1]\<rparr>,
            Unit \<lparr>dp_id = 1, dp_type = 2, dp_length = 3,
                   dp_value = VError (InvalidValueLength 3) [0, 0, 0x7B],
                   raw_value = [0, 0, 0x7B]\<rparr>,
            Unit \<lparr>dp_id = 2, dp_type = 2, dp_length = 4, dp_value = VInt 123,
                   raw_value = [0, 0, 0, 0x7B]\<rparr>]"
proof -
  let ?b = "Unit \<lparr>dp_id = 9, dp_type = 1, dp_length = 1, dp_value = VBool True,
                    raw_value = [1]\<rparr> :: bytes dp_entry"
  have pre: "parse_data_units keep_bytes [9, 1, 0, 1, 1] = Inr [?b]"
    by code_simp
  have units: "list_all is_unit [?b]"
    by simp
  have len: "length [0, 0, 0x7B :: byte] = unat (0 :: byte) * 256 + unat (3 :: byte)"
    by simp
  have ne: "length [0, 0, 0x7B :: byte] \<noteq> 4"
    by simp
  have rest: "parse_data_units keep_bytes [2, 2, 0, 4, 0, 0, 0, 0x7B] =
      Inr [Unit \<lparr>dp_id = 2, dp_type = 2, dp_length = 4, dp_value = VInt 123,
                  raw_value = [0, 0, 0, 0x7B]\<rparr>]"
    by code_simp
  from integer32_invalid_length_not_fatal [OF pre units len ne, of "[2, 2, 0, 4, 0, 0, 0, 0x7B]" 1]
  show ?thesis
    using pre rest by simp
qed

text \<open>
  C10. A data unit with declared length 0 and its 4 header bytes present is appended as
  the dictionary of a data unit, after any payload \<open>pre\<close> that decodes to data units
  only: its raw value is empty, type 0 decodes to the empty bytes and type 1 to
  \<open>False\<close>. The iteration that reads it moves the offset by 4 and does not break, and
  the rest of the payload is decoded as it is decoded alone.
\<close>

theorem zero_length_data_unit:
  assumes "parse_data_units dec pre = Inr us" and "list_all is_unit us"
  shows "\<exists>decoded rs.
      decode_dp_value dec (unat ty) 0 [] = Inr decoded
    \<and> decode_dp_value dec 0 0 [] = Inr (VRaw [])
    \<and> decode_dp_value dec 1 0 [] = Inr (VBool False)
    \<and> parse_data_units_body dec (pre @ [i, ty, 0, 0] @ rest) (length pre) acc =
        Continue (length pre + 4)
          (acc @ [Unit \<lparr>dp_id = unat i, dp_type = unat ty, dp_length = 0,
                          dp_value = decoded, raw_value = []\<rparr>])
    \<and> parse_data_units dec rest = Inr rs
    \<and> parse_data_units dec (pre @ [i, ty, 0, 0] @ rest) =
        Inr (us @ Unit \<lparr>dp_id = unat i, dp_type = unat ty, dp_length = 0,
                          dp_value = decoded, raw_value = []\<rparr> # rs)"
proof -
  obtain decoded where decoded: "decode_dp_value dec (unat ty) (length ([] :: bytes)) [] = Inr decoded"
    using decode_dp_value_no_raise [of "[]" "length ([] :: bytes)" dec "unat ty"] by auto
  have len: "length ([] :: bytes) = unat (0 :: byte) * 256 + unat (0 :: byte)"
    by simp
  from parse_data_units_unit_between [OF assms len decoded, of rest i]
  obtain rs where rs: "parse_data_units dec rest = Inr rs"
    "parse_data_units dec (pre @ [i, ty, 0, 0] @ rest) =
        Inr (us @ Unit \<lparr>dp_id = unat i, dp_type = unat ty, dp_length = 0,
                          dp_value = decoded, raw_value = []\<rparr> # rs)"
    by auto
  define d where "d = pre @ [i, ty, 0, 0] @ rest"
  have "parse_data_units_body dec d (length pre) acc =
      Continue (length pre + 4 + length ([] :: bytes))
        (acc @ [Unit \<lparr>dp_id = unat i, dp_type = unat ty, dp_length = length ([] :: bytes),
                        dp_value = decoded, raw_value = []\<rparr>])"
  proof (rule parse_data_units_body_header)
    show "slice_between d (length pre) (length pre + 4) = [i, ty, 0, 0]"
      by (simp add: d_def slice_between_def)
    show "length ([] :: bytes) = unat (0 :: byte) * 256 + unat (0 :: byte)"
      by simp
    show "slice_between d (length pre + 4) (length pre + 4 + length ([] :: bytes)) = []"
      by (simp add: slice_between_def)
    show "length pre + 4 + length ([] :: bytes) \<le> length d"
      by (simp add: d_def)
    show "decode_dp_value dec (unat ty) (length ([] :: bytes)) [] = Inr decoded"
      by (rule decoded)
  qed
  then have body: "parse_data_units_body dec (pre @ [i, ty, 0, 0] @ rest) (length pre) acc =
        Continue (length pre + 4)
          (acc @ [Unit \<lparr>dp_id = unat i, dp_type = unat ty, dp_length = 0,
                          dp_value = decoded, raw_value = []\<rparr>])"
    by (simp add: d_def)
  have "decode_dp_value dec 0 0 [] = Inr (VRaw [])"
    and "decode_dp_value dec 1 0 [] = Inr (VBool False)"
    by (simp_all add: decode_dp_value_def)
  with decoded rs body show ?thesis by auto
qed

theorem zero_length_data_unit_witness:
  "parse_data_units keep_bytes [9, 1, 0, 1, 1] =
     Inr [Unit \<lparr>dp_id = 9, dp_type = 1, dp_length = 1, dp_value = VBool True, raw_value = [1]\<rparr>]
   \<and> list_all is_unit
        [Unit \<lparr>dp_id = 9, dp_type = 1, dp_length = 1, dp_value = VBool True,
                raw_value = [1]\<rparr> :: bytes dp_entry]
   \<and> parse_data_units keep_bytes ([9, 1, 0, 1, 1] @ [7, 1, 0, 0] @ [8, 0, 0, 0]) =
       Inr [Unit \<lparr>dp_id = 9, dp_type = 1, dp_length = 1, dp_value = VBool True, raw_value = [1]\<rparr>,
            Unit \<lparr>dp_id = 7, dp_type = 1, dp_length = 0, dp_value = VBool False, raw_value = []\<rparr>,
            Unit \<lparr>dp_id = 8, dp_type = 0, dp_length = 0, dp_value = VRaw [], raw_value = []\<rparr>]"
proof -
  let ?b = "Unit \<lparr>dp_id = 9, dp_type = 1, dp_length = 1, dp_value = VBool True,
                    raw_value = [1]\<rparr> :: bytes dp_entry"
  have pre: "parse_data_units keep_bytes [9, 1, 0, 1, 1] = Inr [?b]"
    by code_simp
  have units: "list_all is_unit [?b]"
    by simp
  have rest: "parse_data_units keep_bytes [8, 0, 0, 0] =
      Inr [Unit \<lparr>dp_id = 8, dp_type = 0, dp_length = 0, dp_value = VRaw [], raw_value = []\<rparr>]"
    by code_simp
  from zero_length_data_unit [OF pre units, of 1 7 "[8, 0, 0, 0]" "[]"]
  show ?thesis
    using pre rest by auto
qed

text \<open>
  C9. The list that \<open>parse_data_units\<close> returns has at most \<open>len(payload) div 4 + 1\<close>
  elements; all its elements but the last are dictionaries of data units, so one of the
  error dictionaries that end the loop can only be the last element; and the data units
  of the list take 4 bytes and their value each, together no more than the payload has.
\<close>

theorem parse_data_units_length_bound:
  "\<exists>rs. parse_data_units dec d = Inr rs
     \<and> length rs \<le> length d div 4 + 1
     \<and> list_all is_unit (butlast rs)
     \<and> sum_list (map unit_bytes rs) \<le> length d
     \<and> 4 * length (filter is_unit rs) \<le> sum_list (map unit_bytes rs)"
proof -
  from parse_data_units_loop_result [of dec d 0 "[]"]
  obtain rs where rs: "parse_data_units dec d = Inr rs"
    "length rs \<le> length d div 4 + 1" "list_all is_unit (butlast rs)"
    "sum_list (map unit_bytes rs) \<le> length d"
    by (auto simp: parse_data_units_def)
  have "4 * length (filter is_unit xs) \<le> sum_list (map unit_bytes xs)"
    for xs :: "'a dp_entry list"
  proof (induction xs)
    case Nil
    show ?case by simp
  next
    case (Cons x xs)
    then show ?case by (cases x) simp_all
  qed
  with rs show ?thesis by blast
qed

lemma parse_data_units_empty: "parse_data_units dec [] = Inr []"
  by (simp add: parse_data_units_def parse_data_units_loop.simps)

lemma parse_data_units_short:
  assumes "d \<noteq> []" and "length d < 4"
  shows "parse_data_units dec d = Inr [IncompleteDataUnit d]"
proof -
  from assms(2) have "parse_data_units_body dec d 0 [] = Break [IncompleteDataUnit d]"
    by (simp add: parse_data_units_body_def slice_from_def)
  with assms(1) show ?thesis
    by (simp add: parse_data_units_def parse_data_units_loop.simps [of dec d 0])
qed

lemma parse_data_units_value_short:
  assumes "length v < unat hi * 256 + unat lo"
  shows "parse_data_units dec ([i, ty, hi, lo] @ v) =
    Inr [IncompleteValue (unat i) (unat ty) (unat hi * 256 + unat lo) ([i, ty, hi, lo] @ v)]"
proof -
  define d where "d = [i, ty, hi, lo] @ v"
  have len: "length d = 4 + length v"
    by (simp add: d_def)
  have hd: "slice_between d 0 (0 + 4) = [i, ty, hi, lo]"
    by (simp add: d_def slice_between_def)
  have "parse_data_units_body dec d 0 [] =
      Break [IncompleteValue (unat i) (unat ty) (unat hi * 256 + unat lo) d]"
    using assms len hd
    by (simp add: parse_data_units_body_def unpack_BBH_def Let_def slice_from_def)
  moreover have "0 < length d" by (simp add: len)
  ultimately have "parse_data_units dec d =
      Inr [IncompleteValue (unat i) (unat ty) (unat hi * 256 + unat lo) d]"
    by (simp add: parse_data_units_def parse_data_units_loop.simps [of dec d 0])
  then show ?thesis by (simp add: d_def)
qed


text \<open>
  C5. \<open>parse_data_units\<close> returns a list for every input and raises nothing (the model
  is a total function, defined with a termination proof, whose result is never \<open>Inl\<close>).
  Its result is fixed by what remains of the payload after the data units decoded so far
  (a prefix \<open>pre\<close> that decodes to data units only): nothing left ends the list; 1 to 3
  bytes left, or a header whose declared length exceeds the value bytes left, append the
  error dictionary with the remaining bytes as the last element and stop; a header with
  its value appends one data unit, takes 4 bytes and the value, and goes on with the
  rest. In the loop itself, an iteration never raises and never enters the handler of
  \<open>struct.error\<close>; when it goes on, the offset has grown by at least 4 and is within the
  payload; a truncation appends the error dictionary and breaks; and a break ends the
  function with the list of the break.
\<close>

theorem parse_data_units_terminates:
  "(\<exists>rs. parse_data_units dec d = Inr rs)
   \<and> parse_data_units dec [] = Inr []
   \<and> (parse_data_units dec pre = Inr us \<and> list_all is_unit us
        \<longrightarrow> parse_data_units dec (pre @ []) = Inr us)
   \<and> (parse_data_units dec pre = Inr us \<and> list_all is_unit us
        \<and> tail \<noteq> [] \<and> length tail < 4
        \<longrightarrow> parse_data_units dec (pre @ tail) = Inr (us @ [IncompleteDataUnit tail]))
   \<and> (parse_data_units dec pre = Inr us \<and> list_all is_unit us
        \<and> length v < unat hi * 256 + unat lo
        \<longrightarrow> parse_data_units dec (pre @ [i, ty, hi, lo] @ v) =
            Inr (us @ [IncompleteValue (unat i) (unat ty) (unat hi * 256 + unat lo)
                         ([i, ty, hi, lo] @ v)]))
   \<and> (parse_data_units dec pre = Inr us \<and> list_all is_unit us
        \<and> length v = unat hi * 256 + unat lo
        \<longrightarrow> (\<exists>decoded rs.
              decode_dp_value dec (unat ty) (length v) v = Inr decoded
            \<and> parse_data_units dec rest = Inr rs
            \<and> parse_data_units dec (pre @ [i, ty, hi, lo] @ v @ rest) =
                Inr (us @ Unit \<lparr>dp_id = unat i, dp_type = unat ty, dp_length = length v,
                                  dp_value = decoded, raw_value = v\<rparr> # rs)))
   \<and> (\<forall>e. parse_data_units_body dec d offset acc \<noteq> Raise e)
   \<and> (\<forall>raw. parse_data_units_body dec d offset acc \<noteq> Break (acc @ [HeaderUnpackFailed raw]))
   \<and> (parse_data_units_body dec d offset acc = Continue offset' acc'
        \<longrightarrow> offset + 4 \<le> offset' \<and> offset' \<le> length d)
   \<and> (length d < offset + 4
        \<longrightarrow> parse_data_units_body dec d offset acc =
            Break (acc @ [IncompleteDataUnit (slice_from d offset)]))
   \<and> (offset + 4 \<le> length d
        \<and> length d < offset + 4 + (unat (d ! (offset + 2)) * 256 + unat (d ! (offset + 3)))
        \<longrightarrow> parse_data_units_body dec d offset acc =
            Break (acc @ [IncompleteValue (unat (d ! offset)) (unat (d ! (offset + 1)))
                           (unat (d ! (offset + 2)) * 256 + unat (d ! (offset + 3)))
                           (slice_from d offset)]))
   \<and> (offset < length d \<and> parse_data_units_body dec d offset acc = Break r
        \<longrightarrow> parse_data_units_loop dec d offset acc = Inr r)"
proof -
  have total: "\<exists>rs. parse_data_units dec d = Inr rs"
    by (rule parse_data_units_total)
  have empty: "parse_data_units dec [] = Inr []"
    by (rule parse_data_units_empty)
  have after: "parse_data_units dec (pre @ t) = Inr (us @ rs)"
    if "parse_data_units dec pre = Inr us" and "list_all is_unit us"
      and "parse_data_units dec t = Inr rs" for t rs
    using parse_data_units_append [OF that(1,2), of t] that(3) by simp
  have F0: "parse_data_units dec pre = Inr us \<and> list_all is_unit us
        \<longrightarrow> parse_data_units dec (pre @ []) = Inr us"
    by simp
  have F1: "parse_data_units dec pre = Inr us \<and> list_all is_unit us
        \<and> tail \<noteq> [] \<and> length tail < 4
        \<longrightarrow> parse_data_units dec (pre @ tail) = Inr (us @ [IncompleteDataUnit tail])"
    using after [of tail "[IncompleteDataUnit tail]"] parse_data_units_short [of tail dec]
    by blast
  have F2: "parse_data_units dec pre = Inr us \<and> list_all is_unit us
        \<and> length v < unat hi * 256 + unat lo
        \<longrightarrow> parse_data_units dec (pre @ [i, ty, hi, lo] @ v) =
            Inr (us @ [IncompleteValue (unat i) (unat ty) (unat hi * 256 + unat lo)
                         ([i, ty, hi, lo] @ v)])"
    using after [of "[i, ty, hi, lo] @ v"
        "[IncompleteValue (unat i) (unat ty) (unat hi * 256 + unat lo) ([i, ty, hi, lo] @ v)]"]
      parse_data_units_value_short [of v hi lo dec i ty]
    by blast
  have F3: "\<exists>decoded rs.
              decode_dp_value dec (unat ty) (length v) v = Inr decoded
            \<and> parse_data_units dec rest = Inr rs
            \<and> parse_data_units dec (pre @ [i, ty, hi, lo] @ v @ rest) =
                Inr (us @ Unit \<lparr>dp_id = unat i, dp_type = unat ty, dp_length = length v,
                                  dp_value = decoded, raw_value = v\<rparr> # rs)"
    if pre: "parse_data_units dec pre = Inr us" "list_all is_unit us"
      and lv: "length v = unat hi * 256 + unat lo"
  proof -
    obtain decoded where dv: "decode_dp_value dec (unat ty) (length v) v = Inr decoded"
      using decode_dp_value_no_raise [of v "length v" dec "unat ty"] by auto
    from parse_data_units_unit_between [OF pre lv dv, of rest i] dv
    show ?thesis by blast
  qed
  have B1: "\<forall>e. parse_data_units_body dec d offset acc \<noteq> Raise e"
    by (simp add: parse_data_units_body_no_raise)
  have B2: "\<forall>raw. parse_data_units_body dec d offset acc \<noteq> Break (acc @ [HeaderUnpackFailed raw])"
    by (simp add: parse_data_units_body_eq split: sum.splits)
  have B3: "parse_data_units_body dec d offset acc = Continue offset' acc'
        \<longrightarrow> offset + 4 \<le> offset' \<and> offset' \<le> length d"
    using parse_data_units_body_Continue by blast
  have B4: "length d < offset + 4
        \<longrightarrow> parse_data_units_body dec d offset acc =
            Break (acc @ [IncompleteDataUnit (slice_from d offset)])"
    by (simp add: parse_data_units_body_eq slice_from_def)
  have B5: "offset + 4 \<le> length d
        \<and> length d < offset + 4 + (unat (d ! (offset + 2)) * 256 + unat (d ! (offset + 3)))
        \<longrightarrow> parse_data_units_body dec d offset acc =
            Break (acc @ [IncompleteValue (unat (d ! offset)) (unat (d ! (offset + 1)))
                           (unat (d ! (offset + 2)) * 256 + unat (d ! (offset + 3)))
                           (slice_from d offset)])"
    by (simp add: parse_data_units_body_eq slice_from_def)
  have B6: "offset < length d \<and> parse_data_units_body dec d offset acc = Break r
        \<longrightarrow> parse_data_units_loop dec d offset acc = Inr r"
    by (simp add: parse_data_units_loop.simps)
  from F3 have F3': "parse_data_units dec pre = Inr us \<and> list_all is_unit us
        \<and> length v = unat hi * 256 + unat lo
        \<longrightarrow> (\<exists>decoded rs.
              decode_dp_value dec (unat ty) (length v) v = Inr decoded
            \<and> parse_data_units dec rest = Inr rs
            \<and> parse_data_units dec (pre @ [i, ty, hi, lo] @ v @ rest) =
                Inr (us @ Unit \<lparr>dp_id = unat i, dp_type = unat ty, dp_length = length v,
                                  dp_value = decoded, raw_value = v\<rparr> # rs))"
    by blast
  show ?thesis
    using total empty F0 F1 F2 F3' B1 B2 B3 B4 B5 B6
    by (intro conjI)
qed

theorem parse_data_units_terminates_witness:
  "parse_data_units keep_bytes [1, 2, 0, 4, 0, 0, 0, 0x7B] =
     Inr [Unit \<lparr>dp_id = 1, dp_type = 2, dp_length = 4, dp_value = VInt 123,
                 raw_value = [0, 0, 0, 0x7B]\<rparr>]
   \<and> list_all is_unit
        [Unit \<lparr>dp_id = 1, dp_type = 2, dp_length = 4, dp_value = VInt 123,
                raw_value = [0, 0, 0, 0x7B]\<rparr> :: bytes dp_entry]
   \<and> [1, 2, 0 :: byte] \<noteq> [] \<and> length [1, 2, 0 :: byte] < 4
   \<and> parse_data_units keep_bytes ([1, 2, 0, 4, 0, 0, 0, 0x7B] @ [1, 2, 0]) =
       Inr [Unit \<lparr>dp_id = 1, dp_type = 2, dp_length = 4, dp_value = VInt 123,
                   raw_value = [0, 0, 0, 0x7B]\<rparr>,
            IncompleteDataUnit [1, 2, 0]]
   \<and> length [1 :: byte] < unat (0 :: byte) * 256 + unat (9 :: byte)
   \<and> parse_data_units keep_bytes ([1, 2, 0, 4, 0, 0, 0, 0x7B] @ [7, 0, 0, 9] @ [1]) =
       Inr [Unit \<lparr>dp_id = 1, dp_type = 2, dp_length = 4, dp_value = VInt 123,
                   raw_value = [0, 0, 0, 0x7B]\<rparr>,
            IncompleteValue 7 0 9 [7, 0, 0, 9, 1]]
   \<and> parse_data_units_body keep_bytes [1, 2, 0, 4, 0, 0, 0, 0x7B, 7, 0, 0, 9, 1] 0 [] =
       Continue 8 [Unit \<lparr>dp_id = 1, dp_type = 2, dp_length = 4, dp_value = VInt 123,
                        raw_value = [0, 0, 0, 0x7B]\<rparr>]
   \<and> (0 :: nat) + 4 \<le> 8
   \<and> (8 :: nat) \<le> length [1, 2, 0, 4, 0, 0, 0, 0x7B, 7, 0, 0, 9, 1 :: byte]
   \<and> parse_data_units_body keep_bytes [1, 2, 0, 4, 0, 0, 0, 0x7B, 7, 0, 0, 9, 1] 8 [] =
       Break [IncompleteValue 7 0 9 [7, 0, 0, 9, 1]]
   \<and> parse_data_units_loop keep_bytes [1, 2, 0, 4, 0, 0, 0, 0x7B, 7, 0, 0, 9, 1] 8 [] =
       Inr [IncompleteValue 7 0 9 [7, 0, 0, 9, 1]]"
proof -
  let ?d = "[1, 2, 0, 4, 0, 0, 0, 0x7B, 7, 0, 0, 9, 1] :: bytes"
  let ?pre = "[1, 2, 0, 4, 0, 0, 0, 0x7B] :: bytes"
  let ?u = "[Unit \<lparr>dp_id = 1, dp_type = 2, dp_length = 4, dp_value = VInt 123,
                     raw_value = [0, 0, 0, 0x7B]\<rparr>] :: bytes dp_entry list"
  have pre: "parse_data_units keep_bytes ?pre = Inr ?u"
    by code_simp
  have units: "list_all is_unit ?u"
    by simp
  have t1: "parse_data_units keep_bytes (?pre @ [1, 2, 0]) = Inr (?u @ [IncompleteDataUnit [1, 2, 0]])"
    using parse_data_units_terminates [of keep_bytes _ ?pre ?u "[1, 2, 0]"] pre units
    by simp
  have t2: "parse_data_units keep_bytes (?pre @ [7, 0, 0, 9] @ [1]) =
      Inr (?u @ [IncompleteValue 7 0 9 ([7, 0, 0, 9] @ [1])])"
    using parse_data_units_terminates [of keep_bytes _ ?pre ?u _ "[1]" 0 9 7 0] pre units
    by simp
  have step: "parse_data_units_body keep_bytes ?d 0 [] = Continue 8 ?u"
    by code_simp
  have a: "(0 :: nat) + 4 \<le> 8 \<and> (8 :: nat) \<le> length ?d"
    using parse_data_units_terminates [of keep_bytes ?d _ _ _ _ _ _ _ _ _ 0 "[]" 8 ?u] step by blast
  have b: "parse_data_units_body keep_bytes ?d 8 [] = Break [IncompleteValue 7 0 9 [7, 0, 0, 9, 1]]"
    using parse_data_units_terminates [of keep_bytes ?d _ _ _ _ _ _ _ _ _ 8 "[]"]
    by (simp add: slice_from_def)
  have c: "parse_data_units_loop keep_bytes ?d 8 [] = Inr [IncompleteValue 7 0 9 [7, 0, 0, 9, 1]]"
    using parse_data_units_terminates [of keep_bytes ?d _ _ _ _ _ _ _ _ _ 8 "[]" _ _
        "[IncompleteValue 7 0 9 [7, 0, 0, 9, 1]]"] b
    by simp
  from pre units t1 t2 step a b c show ?thesis by simp
qed

section \<open>Properties of the packet decoder\<close>

lemma slice_2_6:
  assumes "6 \<le> length p"
  shows "slice_between p 2 6 = [p ! 2, p ! 3, p ! 4, p ! 5]"
  using slice_4 [of 2 p] assms by simp

lemma parse_tuya_packet_eq:
  assumes "7 \<le> length p"
  shows "parse_tuya_packet dec p =
    (if length p < 7 + unat (p ! 5)
     then Inr (PacketError (PacketTooShortForLength (unat (p ! 5)) p))
     else if calculate_checksum (take (6 + unat (p ! 5)) p) \<noteq> unat (p ! (6 + unat (p ! 5)))
     then Inr (PacketError (ChecksumMismatch (calculate_checksum (take (6 + unat (p ! 5)) p))
                  (unat (p ! (6 + unat (p ! 5)))) p))
     else
       (case parse_data_units dec (slice_between p 6 (6 + unat (p ! 5))) of
          Inl e \<Rightarrow> Inl e
        | Inr parsed_data \<Rightarrow>
            Inr (Packet \<lparr>version = unat (p ! 2), command = unat (p ! 3) * 256 + unat (p ! 4),
                         data_length = unat (p ! 5), data = slice_between p 6 (6 + unat (p ! 5)),
                         checksum = unat (p ! (6 + unat (p ! 5))),
                         parsed_data_units = parsed_data\<rparr>)))"
proof -
  from assms have "slice_between p 2 6 = [p ! 2, p ! 3, p ! 4, p ! 5]"
    by (simp add: slice_2_6)
  with assms show ?thesis
    by (auto simp: parse_tuya_packet_def unpack_BHB_def Let_def index_def slice_to_def
        split: sum.splits)
qed

lemma parse_tuya_packet_no_raise: "\<exists>r. parse_tuya_packet dec p = Inr r"
proof (cases "7 \<le> length p")
  case False
  then show ?thesis by (simp add: parse_tuya_packet_def)
next
  case True
  obtain rs where "parse_data_units dec (slice_between p 6 (6 + unat (p ! 5))) = Inr rs"
    using parse_data_units_total by blast
  then show ?thesis
    by (simp add: parse_tuya_packet_eq [OF True])
qed


text \<open>
  C7. A frame of at least 7 bytes always gives the three header fields: unpacking the 4
  bytes at offsets 2 to 5 succeeds with the version, the big-endian command and the
  declared length. So the result of \<open>parse_tuya_packet\<close> is never the error
  "Failed to unpack header fields", for any frame.
\<close>

theorem header_unpack_always_succeeds:
  "(7 \<le> length p \<longrightarrow>
      unpack_BHB (slice_between p 2 6) = Some (unat (p ! 2), unat (p ! 3) * 256 + unat (p ! 4), unat (p ! 5)))
   \<and> (\<forall>raw. parse_tuya_packet dec p \<noteq> Inr (PacketError (HeaderFieldsUnpackFailed raw)))"
proof -
  have "unpack_BHB (slice_between p 2 6) = Some (unat (p ! 2), unat (p ! 3) * 256 + unat (p ! 4), unat (p ! 5))"
    if "7 \<le> length p"
    using that by (simp add: slice_2_6 unpack_BHB_def)
  moreover have "parse_tuya_packet dec p \<noteq> Inr (PacketError (HeaderFieldsUnpackFailed raw))" for raw
  proof (cases "7 \<le> length p")
    case False
    then show ?thesis by (simp add: parse_tuya_packet_def)
  next
    case True
    show ?thesis
      by (simp add: parse_tuya_packet_eq [OF True] split: sum.splits)
  qed
  ultimately show ?thesis by blast
qed

theorem header_unpack_always_succeeds_witness:
  "7 \<le> length [0x55, 0xAA, 3, 1, 7, 0, 10 :: byte]
   \<and> unpack_BHB (slice_between [0x55, 0xAA, 3, 1, 7, 0, 10] 2 6) = Some (3, 263, 0)"
  using header_unpack_always_succeeds [of "[0x55, 0xAA, 3, 1, 7, 0, 10]" keep_bytes]
  by simp





lemma sum_list_update_byte:
  "k < length xs \<Longrightarrow> sum_list (xs[k := b]) + xs ! k = sum_list xs + (b :: byte)"
proof (induction xs arbitrary: k)
  case Nil
  then show ?case by simp
next
  case (Cons x xs)
  show ?case
  proof (cases k)
    case 0
    then show ?thesis by simp
  next
    case (Suc j)
    with Cons.prems have "j < length xs" by simp
    from Cons.IH [OF this] Suc show ?thesis
      by (simp add: add.assoc)
  qed
qed

lemma calculate_checksum_update:
  assumes "k < length xs" and "b \<noteq> xs ! k"
  shows "calculate_checksum (xs[k := b]) \<noteq> calculate_checksum xs"
proof
  assume "calculate_checksum (xs[k := b]) = calculate_checksum xs"
  then have "unat (sum_list (xs[k := b])) = unat (sum_list xs)"
    by (simp add: calculate_checksum_def unat_sum_list_byte)
  then have "sum_list (xs[k := b]) = sum_list xs"
    by (simp add: word_unat_eq_iff)
  with sum_list_update_byte [OF assms(1), of b] have "xs ! k = b"
    by simp
  with assms(2) show False by simp
qed

lemma parse_tuya_packet_Packet:
  assumes "parse_tuya_packet dec p = Inr (Packet pkt)"
  shows "7 \<le> length p \<and> 7 + unat (p ! 5) \<le> length p
    \<and> calculate_checksum (take (6 + unat (p ! 5)) p) = unat (p ! (6 + unat (p ! 5)))
    \<and> version pkt = unat (p ! 2) \<and> command pkt = unat (p ! 3) * 256 + unat (p ! 4)
    \<and> data_length pkt = unat (p ! 5) \<and> data pkt = slice_between p 6 (6 + unat (p ! 5))
    \<and> checksum pkt = unat (p ! (6 + unat (p ! 5)))
    \<and> parse_data_units dec (data pkt) = Inr (parsed_data_units pkt)"
proof -
  have len: "7 \<le> length p"
  proof (rule ccontr)
    assume "\<not> 7 \<le> length p"
    with assms show False by (simp add: parse_tuya_packet_def)
  qed
  from assms show ?thesis
    unfolding parse_tuya_packet_eq [OF len]
    using len by (auto split: if_splits sum.splits)
qed

text \<open>
  C3. When \<open>parse_tuya_packet\<close> accepts a frame, the frame with one payload byte
  replaced by a different value is rejected with the checksum-mismatch error, which
  carries the calculated checksum, different from the received one, the received
  checksum, unchanged, and the mutated frame.
\<close>

theorem payload_mutation_detected:
  assumes "parse_tuya_packet dec p = Inr (Packet pkt)"
    and "i < data_length pkt" and "b \<noteq> p ! (6 + i)"
  shows "\<exists>c. c \<noteq> checksum pkt
    \<and> c = calculate_checksum (slice_to (p[6 + i := b]) (6 + data_length pkt))
    \<and> parse_tuya_packet dec (p[6 + i := b]) =
        Inr (PacketError (ChecksumMismatch c (checksum pkt) (p[6 + i := b])))"
proof -
  define n where "n = unat (p ! 5)"
  define q where "q = p[6 + i := b]"
  from parse_tuya_packet_Packet [OF assms(1)]
  have len: "7 \<le> length p" and long: "7 + n \<le> length p"
    and ok: "calculate_checksum (take (6 + n) p) = unat (p ! (6 + n))"
    and dl: "data_length pkt = n" and ck: "checksum pkt = unat (p ! (6 + n))"
    by (simp_all add: n_def)
  from assms(2) dl have i: "i < n" by simp
  have lq: "length q = length p" by (simp add: q_def)
  have q5: "q ! 5 = p ! 5" by (simp add: q_def)
  have qn: "q ! (6 + n) = p ! (6 + n)"
    using i by (simp add: q_def)
  have tk: "take (6 + n) q = (take (6 + n) p)[6 + i := b]"
    using i by (simp add: q_def take_update_swap)
  have "6 + i < length (take (6 + n) p)"
    using i long by simp
  moreover have "b \<noteq> take (6 + n) p ! (6 + i)"
    using assms(3) i by simp
  ultimately have ne: "calculate_checksum (take (6 + n) q) \<noteq> calculate_checksum (take (6 + n) p)"
    unfolding tk by (rule calculate_checksum_update)
  have "7 \<le> length q" using len lq by simp
  from parse_tuya_packet_eq [OF this, of dec]
  have "parse_tuya_packet dec q =
      Inr (PacketError (ChecksumMismatch (calculate_checksum (take (6 + n) q)) (unat (p ! (6 + n))) q))"
    using long ne ok by (simp add: q5 qn lq n_def [symmetric])
  with ne ok ck dl show ?thesis
    by (simp add: q_def slice_to_def)
qed

theorem payload_mutation_detected_witness:
  "parse_tuya_packet keep_bytes [0x55, 0xAA, 3, 0, 7, 1, 5, 15] =
     Inr (Packet \<lparr>version = 3, command = 7, data_length = 1, data = [5], checksum = 15,
                  parsed_data_units = [IncompleteDataUnit [5]]\<rparr>)
   \<and> (0 :: nat) < 1 \<and> (6 :: byte) \<noteq> [0x55, 0xAA, 3, 0, 7, 1, 5, 15] ! (6 + 0)
   \<and> parse_tuya_packet keep_bytes [0x55, 0xAA, 3, 0, 7, 1, 6, 15] =
       Inr (PacketError (ChecksumMismatch 16 15 [0x55, 0xAA, 3, 0, 7, 1, 6, 15]))"
proof -
  let ?pkt = "\<lparr>version = 3, command = 7, data_length = 1, data = [5], checksum = 15,
                  parsed_data_units = [IncompleteDataUnit [5]]\<rparr> :: bytes packet"
  have acc: "parse_tuya_packet keep_bytes [0x55, 0xAA, 3, 0, 7, 1, 5, 15] = Inr (Packet ?pkt)"
    by code_simp
  have i: "0 < data_length ?pkt" by simp
  have b: "(6 :: byte) \<noteq> [0x55, 0xAA, 3, 0, 7, 1, 5, 15] ! (6 + 0)" by simp
  from payload_mutation_detected [OF acc i b]
  show ?thesis
    using acc by (simp add: slice_to_def calculate_checksum_def)
qed

text \<open>
  The claim C1 takes the checksum over the bytes from offset 2 (the marker excluded).
  The code sums \<open>packet_data[:6 + data_length]\<close>, the marker included, as the docstring
  of \<open>calculate_checksum\<close> says ("the sum of all bytes from the header"). A frame whose
  checksum byte includes the marker is accepted though the claim's equality fails
  (9 against 10), and the frame whose checksum byte satisfies the claim's equality is
  rejected with the checksum-mismatch error.
\<close>

theorem checksum_excluding_marker_counterexample:
  "parse_tuya_packet keep_bytes [0x55, 0xAA, 3, 0, 7, 0, 9] =
     Inr (Packet \<lparr>version = 3, command = 7, data_length = 0, data = [], checksum = 9,
                  parsed_data_units = []\<rparr>)
   \<and> sum_list (map unat (slice_between [0x55, 0xAA, 3, 0, 7, 0, 9 :: byte] 2 6)) mod 256 = 10
   \<and> parse_tuya_packet keep_bytes [0x55, 0xAA, 3, 0, 7, 0, 10] =
       Inr (PacketError (ChecksumMismatch 9 10 [0x55, 0xAA, 3, 0, 7, 0, 10]))
   \<and> sum_list (map unat (slice_between [0x55, 0xAA, 3, 0, 7, 0, 10 :: byte] 2 6)) mod 256 = 10"
proof -
  have "parse_tuya_packet keep_bytes [0x55, 0xAA, 3, 0, 7, 0, 9] =
     Inr (Packet \<lparr>version = 3, command = 7, data_length = 0, data = [], checksum = 9,
                  parsed_data_units = []\<rparr>)"
    by code_simp
  moreover have "parse_tuya_packet keep_bytes [0x55, 0xAA, 3, 0, 7, 0, 10] =
       Inr (PacketError (ChecksumMismatch 9 10 [0x55, 0xAA, 3, 0, 7, 0, 10]))"
    by code_simp
  moreover have "sum_list (map unat (slice_between [0x55, 0xAA, 3, 0, 7, 0, 9 :: byte] 2 6)) mod 256 = 10"
    by (simp add: slice_between_def)
  moreover have "sum_list (map unat (slice_between [0x55, 0xAA, 3, 0, 7, 0, 10 :: byte] 2 6)) mod 256 = 10"
    by (simp add: slice_between_def)
  ultimately show ?thesis by simp
qed

text \<open>
  C1, as the code has it. When \<open>parse_tuya_packet\<close> accepts a frame, the received
  checksum byte, at offset 6 + declared length, equals the sum modulo 256 of all the
  frame bytes before it, from offset 0, the two marker bytes included. And the result is
  the checksum-mismatch error exactly when the frame has at least 7 bytes and at least
  7 + declared length bytes and this equality fails; the error carries the calculated
  sum, the received byte and the frame.
\<close>

theorem parse_tuya_packet_checksum:
  "(parse_tuya_packet dec p = Inr (Packet pkt) \<longrightarrow>
      6 + data_length pkt < length p
      \<and> checksum pkt = unat (p ! (6 + data_length pkt))
      \<and> checksum pkt = sum_list (map unat (take (6 + data_length pkt) p)) mod 256)
   \<and> ((\<exists>c r raw. parse_tuya_packet dec p = Inr (PacketError (ChecksumMismatch c r raw))) \<longleftrightarrow>
        (7 \<le> length p \<and> 7 + unat (p ! 5) \<le> length p
         \<and> sum_list (map unat (take (6 + unat (p ! 5)) p)) mod 256 \<noteq> unat (p ! (6 + unat (p ! 5)))))
   \<and> (parse_tuya_packet dec p = Inr (PacketError (ChecksumMismatch c r raw)) \<longrightarrow>
        c = sum_list (map unat (take (6 + unat (p ! 5)) p)) mod 256
        \<and> r = unat (p ! (6 + unat (p ! 5))) \<and> raw = p)"
proof -
  have A: "6 + data_length pkt < length p
      \<and> checksum pkt = unat (p ! (6 + data_length pkt))
      \<and> checksum pkt = sum_list (map unat (take (6 + data_length pkt) p)) mod 256"
    if "parse_tuya_packet dec p = Inr (Packet pkt)"
    using parse_tuya_packet_Packet [OF that]
    by (simp add: calculate_checksum_def)
  have short: "parse_tuya_packet dec p \<noteq> Inr (PacketError (ChecksumMismatch c r raw))"
    if "\<not> 7 \<le> length p" for c r raw
    using that by (simp add: parse_tuya_packet_def)
  have B: "(\<exists>c r raw. parse_tuya_packet dec p = Inr (PacketError (ChecksumMismatch c r raw))) \<longleftrightarrow>
        (7 \<le> length p \<and> 7 + unat (p ! 5) \<le> length p
         \<and> sum_list (map unat (take (6 + unat (p ! 5)) p)) mod 256 \<noteq> unat (p ! (6 + unat (p ! 5))))"
  proof (cases "7 \<le> length p")
    case False
    with short show ?thesis by blast
  next
    case True
    show ?thesis
      unfolding parse_tuya_packet_eq [OF True]
      using True by (auto simp: calculate_checksum_def split: sum.splits)
  qed
  have C: "c = sum_list (map unat (take (6 + unat (p ! 5)) p)) mod 256
        \<and> r = unat (p ! (6 + unat (p ! 5))) \<and> raw = p"
    if m: "parse_tuya_packet dec p = Inr (PacketError (ChecksumMismatch c r raw))"
  proof -
    from m short have len: "7 \<le> length p" by blast
    from m show ?thesis
      unfolding parse_tuya_packet_eq [OF len]
      by (auto simp: calculate_checksum_def split: if_splits sum.splits)
  qed
  from A B C show ?thesis by blast
qed

theorem parse_tuya_packet_checksum_witness:
  "parse_tuya_packet keep_bytes [0x55, 0xAA, 3, 0, 7, 1, 5, 15] =
     Inr (Packet \<lparr>version = 3, command = 7, data_length = 1, data = [5], checksum = 15,
                  parsed_data_units = [IncompleteDataUnit [5]]\<rparr>)
   \<and> (6 :: nat) + 1 < length [0x55, 0xAA, 3, 0, 7, 1, 5, 15 :: byte]
   \<and> sum_list (map unat (take (6 + 1) [0x55, 0xAA, 3, 0, 7, 1, 5, 15 :: byte])) mod 256 = 15
   \<and> 7 \<le> length [0x55, 0xAA, 3, 0, 7, 1, 6, 15 :: byte]
   \<and> sum_list (map unat (take (6 + 1) [0x55, 0xAA, 3, 0, 7, 1, 6, 15 :: byte])) mod 256 \<noteq> 15
   \<and> (\<exists>c r raw. parse_tuya_packet keep_bytes [0x55, 0xAA, 3, 0, 7, 1, 6, 15] =
         Inr (PacketError (ChecksumMismatch c r raw)))"
proof -
  let ?p = "[0x55, 0xAA, 3, 0, 7, 1, 5, 15] :: bytes"
  let ?q = "[0x55, 0xAA, 3, 0, 7, 1, 6, 15] :: bytes"
  let ?pkt = "\<lparr>version = 3, command = 7, data_length = 1, data = [5], checksum = 15,
                  parsed_data_units = [IncompleteDataUnit [5]]\<rparr> :: bytes packet"
  have acc: "parse_tuya_packet keep_bytes ?p = Inr (Packet ?pkt)"
    by code_simp
  have a: "(6 :: nat) + 1 < length ?p \<and> sum_list (map unat (take (6 + 1) ?p)) mod 256 = 15"
    using parse_tuya_packet_checksum [of keep_bytes ?p ?pkt] acc by simp
  have ne: "sum_list (map unat (take (6 + 1) ?q)) mod 256 \<noteq> 15"
    by simp
  have "\<exists>c r raw. parse_tuya_packet keep_bytes ?q = Inr (PacketError (ChecksumMismatch c r raw))"
    using parse_tuya_packet_checksum [of keep_bytes ?q] by simp
  with acc a ne show ?thesis by simp
qed

section \<open>Properties of the frame extractor\<close>

lemma bytes_find_take_None:
  assumes "bytes_find sub s = Some n" and "sub \<noteq> []"
  shows "bytes_find sub (take n s) = None"
  using assms(1)
proof (induction s arbitrary: n)
  case Nil
  with assms(2) show ?case by (simp split: if_splits)
next
  case (Cons x xs)
  show ?case
  proof (cases "take (length sub) (x # xs) = sub")
    case True
    with Cons.prems have "n = 0" by simp
    with assms(2) show ?thesis by simp
  next
    case False
    with Cons.prems obtain j where j: "bytes_find sub xs = Some j" "n = Suc j"
      by auto
    from bytes_find_Some [OF j(1)] have jl: "j \<le> length xs" by simp
    have "take (length sub) (x # take j xs) \<noteq> sub"
    proof
      assume eq: "take (length sub) (x # take j xs) = sub"
      then have "length (take (length sub) (x # take j xs)) = length sub"
        by (simp only:)
      then have "min (length sub) (length (x # take j xs)) = length sub"
        by (simp only: length_take)
      with jl have le: "min (length sub) (Suc j) = length sub"
        by simp
      have "x # take j xs = take (Suc j) (x # xs)"
        by simp
      then have "take (length sub) (x # take j xs) = take (min (length sub) (Suc j)) (x # xs)"
        by (simp only: take_take)
      with le eq False show False
        by (simp only:)
    qed
    with Cons.IH [OF j(1)] j(2) show ?thesis by simp
  qed
qed

lemma extract_frame_Some:
  assumes "extract_frame buffer = Some (unexpected, packet_data, buffer')"
  shows "\<exists>m. bytes_find PACKET_MARKER buffer = Some m
    \<and> unexpected = (if m > 0 then Some (take m buffer) else None)
    \<and> drop m buffer = PACKET_MARKER @ packet_data @ buffer'
    \<and> bytes_find PACKET_MARKER (take m buffer) = None
    \<and> bytes_find PACKET_MARKER packet_data = None
    \<and> (buffer' = [] \<or> bytes_find PACKET_MARKER buffer' = Some 0)"
proof -
  have ne: "PACKET_MARKER \<noteq> []"
    by (simp add: PACKET_MARKER_def)
  from assms obtain m where m: "bytes_find PACKET_MARKER buffer = Some m"
    by (auto simp: extract_frame_def split: option.splits)
  have lm: "length PACKET_MARKER = 2"
    by (simp add: PACKET_MARKER_def)
  from bytes_find_Some [OF m]
  have len: "m + 2 \<le> length buffer" and at: "take 2 (drop m buffer) = PACKET_MARKER"
    unfolding lm by blast+
  define rest where "rest = drop 2 (drop m buffer)"
  have split: "drop m buffer = PACKET_MARKER @ rest"
    using at append_take_drop_id [of 2 "drop m buffer"] by (simp add: rest_def)
  have pre: "bytes_find PACKET_MARKER (take m buffer) = None"
    using m ne by (rule bytes_find_take_None)
  have b1: "(if m > 0 then slice_from buffer m else buffer) = drop m buffer"
    by (simp add: slice_from_def)
  have b2: "slice_from (drop m buffer) (length PACKET_MARKER) = rest"
    by (simp add: slice_from_def rest_def lm)
  have b3: "(if m > 0 then Some (slice_to buffer m) else None)
      = (if m > 0 then Some (take m buffer) else None)"
    by (simp add: slice_to_def)
  have ex: "extract_frame buffer =
      (case bytes_find PACKET_MARKER rest of
         None \<Rightarrow> Some (if m > 0 then Some (take m buffer) else None, rest, [])
       | Some n \<Rightarrow> Some (if m > 0 then Some (take m buffer) else None,
                        slice_to rest n, slice_from rest n))"
    by (simp only: extract_frame_def m option.case Let_def b1 b2 b3)
  show ?thesis
  proof (cases "bytes_find PACKET_MARKER rest")
    case None
    with ex assms have "unexpected = (if m > 0 then Some (take m buffer) else None)"
      "packet_data = rest" "buffer' = []"
      by simp_all
    with m split pre None show ?thesis by simp
  next
    case (Some n)
    with ex assms have r: "unexpected = (if m > 0 then Some (take m buffer) else None)"
      "packet_data = take n rest" "buffer' = drop n rest"
      by (simp_all add: slice_to_def slice_from_def)
    from bytes_find_Some [OF Some] have "take (length PACKET_MARKER) (drop n rest) = PACKET_MARKER"
      by blast
    then have "bytes_find PACKET_MARKER (drop n rest) = Some 0"
      using ne by (cases "drop n rest") (simp_all del: take_Suc_Cons)
    moreover have "bytes_find PACKET_MARKER (take n rest) = None"
      using Some ne by (rule bytes_find_take_None)
    ultimately show ?thesis
      using m split pre r by simp
  qed
qed

lemma extract_frame_None:
  "extract_frame buffer = None \<longleftrightarrow> bytes_find PACKET_MARKER buffer = None"
  by (simp add: extract_frame_def Let_def split: option.splits)

lemma drain_buffer_stop:
  "extract_frame buffer = None \<Longrightarrow> drain_buffer dec buffer pc out = Inr (buffer, pc, out)"
  by (subst drain_buffer.simps) simp

lemma drain_buffer_step:
  assumes "extract_frame buffer = Some (u, pd, buffer')"
    and "parse_tuya_packet dec (PACKET_MARKER @ pd) = Inr r"
  shows "drain_buffer dec buffer pc out =
    drain_buffer dec buffer' (pc + 1)
      ((case u of None \<Rightarrow> out | Some x \<Rightarrow> out @ [UnexpectedData x]) @
       [PacketSeen (pc + 1) (PACKET_MARKER @ pd) r])"
  by (subst drain_buffer.simps) (simp add: assms)

lemma drain_buffer_result:
  "(bytes_find PACKET_MARKER buffer = None \<longrightarrow>
      drain_buffer dec buffer pc out = Inr (buffer, pc, out))
   \<and> (\<forall>m. bytes_find PACKET_MARKER buffer = Some m \<longrightarrow>
        (\<exists>pevs. drain_buffer dec buffer pc out =
            Inr ([], pc + length pevs,
                 out @ (if m > 0 then [UnexpectedData (take m buffer)] else []) @ pevs)
          \<and> list_all (candidate_ok dec) pevs
          \<and> concat (map event_bytes pevs) = drop m buffer))"
proof (induction dec buffer pc out rule: drain_buffer.induct)
  case (1 dec buffer pc out)
  have lm: "length PACKET_MARKER = 2"
    by (simp add: PACKET_MARKER_def)
  show ?case
  proof (cases "extract_frame buffer")
    case None
    then have "bytes_find PACKET_MARKER buffer = None"
      by (simp add: extract_frame_None)
    with None show ?thesis
      by (simp add: drain_buffer_stop)
  next
    case (Some t)
    obtain u pd buffer' where t: "t = (u, pd, buffer')"
      by (cases t) auto
    from Some t have ef: "extract_frame buffer = Some (u, pd, buffer')"
      by simp
    from extract_frame_Some [OF ef]
    obtain m where m: "bytes_find PACKET_MARKER buffer = Some m"
      and u: "u = (if m > 0 then Some (take m buffer) else None)"
      and split: "drop m buffer = PACKET_MARKER @ pd @ buffer'"
      and pd: "bytes_find PACKET_MARKER pd = None"
      and b': "buffer' = [] \<or> bytes_find PACKET_MARKER buffer' = Some 0"
      by blast
    obtain r where r: "parse_tuya_packet dec (PACKET_MARKER @ pd) = Inr r"
      using parse_tuya_packet_no_raise by blast
    define out' where "out' = (case u of None \<Rightarrow> out | Some x \<Rightarrow> out @ [UnexpectedData x]) @
       [PacketSeen (pc + 1) (PACKET_MARKER @ pd) r]"
    have out': "out' = out @ (if m > 0 then [UnexpectedData (take m buffer)] else []) @
        [PacketSeen (pc + 1) (PACKET_MARKER @ pd) r]"
      by (simp add: out'_def u)
    have step: "drain_buffer dec buffer pc out = drain_buffer dec buffer' (pc + 1) out'"
      unfolding out'_def using ef r by (rule drain_buffer_step)
    have ok: "candidate_ok dec (PacketSeen (pc + 1) (PACKET_MARKER @ pd) r)"
      using r pd by (simp add: lm bytes_in_def)
    have IH: "(bytes_find PACKET_MARKER buffer' = None \<longrightarrow>
        drain_buffer dec buffer' (pc + 1) out' = Inr (buffer', pc + 1, out'))
      \<and> (\<forall>m. bytes_find PACKET_MARKER buffer' = Some m \<longrightarrow>
        (\<exists>pevs. drain_buffer dec buffer' (pc + 1) out' =
            Inr ([], pc + 1 + length pevs,
                 out' @ (if m > 0 then [UnexpectedData (take m buffer')] else []) @ pevs)
          \<and> list_all (candidate_ok dec) pevs
          \<and> concat (map event_bytes pevs) = drop m buffer'))"
      unfolding out'_def
      using "1.IH" [OF Some t [symmetric] refl r] .
    have "\<exists>pevs. drain_buffer dec buffer pc out =
            Inr ([], pc + length pevs,
                 out @ (if m > 0 then [UnexpectedData (take m buffer)] else []) @ pevs)
          \<and> list_all (candidate_ok dec) pevs
          \<and> concat (map event_bytes pevs) = drop m buffer"
    proof (cases "buffer' = []")
      case True
      then have "bytes_find PACKET_MARKER buffer' = None"
        by (simp add: PACKET_MARKER_def)
      with IH True have "drain_buffer dec buffer' (pc + 1) out' = Inr ([], pc + 1, out')"
        by simp
      with step out' ok split True
      have "drain_buffer dec buffer pc out =
            Inr ([], pc + length [PacketSeen (pc + 1) (PACKET_MARKER @ pd) r],
                 out @ (if m > 0 then [UnexpectedData (take m buffer)] else []) @
                 [PacketSeen (pc + 1) (PACKET_MARKER @ pd) r])
          \<and> list_all (candidate_ok dec) [PacketSeen (pc + 1) (PACKET_MARKER @ pd) r]
          \<and> concat (map event_bytes [PacketSeen (pc + 1) (PACKET_MARKER @ pd) r]) = drop m buffer"
        by simp
      then show ?thesis by blast
    next
      case False
      with b' have "bytes_find PACKET_MARKER buffer' = Some 0" by simp
      with IH obtain pevs where pevs:
        "drain_buffer dec buffer' (pc + 1) out' = Inr ([], pc + 1 + length pevs, out' @ pevs)"
        "list_all (candidate_ok dec) pevs" "concat (map event_bytes pevs) = buffer'"
        by auto
      let ?e = "PacketSeen (pc + 1) (PACKET_MARKER @ pd) r"
      from step out' ok split pevs
      have "drain_buffer dec buffer pc out =
            Inr ([], pc + length (?e # pevs),
                 out @ (if m > 0 then [UnexpectedData (take m buffer)] else []) @ (?e # pevs))
          \<and> list_all (candidate_ok dec) (?e # pevs)
          \<and> concat (map event_bytes (?e # pevs)) = drop m buffer"
        by simp
      then show ?thesis by blast
    qed
    with m show ?thesis by simp
  qed
qed


lemma candidate_ok_event_ok: "list_all (candidate_ok dec) evs \<Longrightarrow> list_all (event_ok dec) evs"
proof (induction evs)
  case Nil
  show ?case by simp
next
  case (Cons e evs)
  then show ?case by (cases e) simp_all
qed

lemma drain_buffer_total:
  "\<exists>buffer' pc' evs. drain_buffer dec buffer pc out = Inr (buffer', pc', out @ evs)
     \<and> concat (map event_bytes evs) @ buffer' = buffer
     \<and> \<not> bytes_in PACKET_MARKER buffer'
     \<and> list_all (event_ok dec) evs"
proof (cases "bytes_find PACKET_MARKER buffer")
  case None
  with drain_buffer_result [of buffer dec pc out]
  have "drain_buffer dec buffer pc out = Inr (buffer, pc, out @ [])"
    by simp
  with None show ?thesis
    by (force simp: bytes_in_def)
next
  case (Some m)
  with drain_buffer_result [of buffer dec pc out]
  obtain pevs where pevs: "drain_buffer dec buffer pc out =
      Inr ([], pc + length pevs,
           out @ (if m > 0 then [UnexpectedData (take m buffer)] else []) @ pevs)"
    "list_all (candidate_ok dec) pevs" "concat (map event_bytes pevs) = drop m buffer"
    by blast
  let ?o = "(if m > 0 then [UnexpectedData (take m buffer)] else []) :: 'a event list"
  from bytes_find_Some [OF Some] have len: "m < length buffer"
    by (simp add: PACKET_MARKER_def)
  have "bytes_find PACKET_MARKER (take m buffer) = None"
    using Some by (rule bytes_find_take_None) (simp add: PACKET_MARKER_def)
  with len have o: "list_all (event_ok dec) ?o"
    by (auto simp: bytes_in_def)
  have "concat (map event_bytes (?o @ pevs)) @ [] = buffer"
    using pevs(3) by simp
  moreover have "list_all (event_ok dec) (?o @ pevs)"
    using o candidate_ok_event_ok [OF pevs(2)] by simp
  moreover have "\<not> bytes_in PACKET_MARKER []"
    by (simp add: bytes_in_def PACKET_MARKER_def)
  ultimately show ?thesis
    using pevs(1) by blast
qed

lemma read_loop_result:
  "\<exists>buffer' pc' evs. read_loop dec chunks buffer pc out = Inr (buffer', pc', out @ evs)
     \<and> concat (map event_bytes evs) @ buffer' = buffer @ concat chunks
     \<and> (\<not> bytes_in PACKET_MARKER buffer \<longrightarrow> \<not> bytes_in PACKET_MARKER buffer')
     \<and> list_all (event_ok dec) evs"
proof (induction chunks arbitrary: buffer pc out)
  case Nil
  have "read_loop dec [] buffer pc out = Inr (buffer, pc, out @ [])"
    by simp
  then show ?case by force
next
  case (Cons chunk chunks)
  show ?case
  proof (cases "chunk = []")
    case True
    with Cons.IH [of buffer pc out] show ?thesis by simp
  next
    case False
    from drain_buffer_total [of dec "buffer @ chunk" pc out]
    obtain b1 pc1 evs1 where d: "drain_buffer dec (buffer @ chunk) pc out = Inr (b1, pc1, out @ evs1)"
      "concat (map event_bytes evs1) @ b1 = buffer @ chunk"
      "\<not> bytes_in PACKET_MARKER b1" "list_all (event_ok dec) evs1"
      by blast
    from Cons.IH [of b1 pc1 "out @ evs1"]
    obtain b2 pc2 evs2 where r: "read_loop dec chunks b1 pc1 (out @ evs1) = Inr (b2, pc2, (out @ evs1) @ evs2)"
      "concat (map event_bytes evs2) @ b2 = b1 @ concat chunks"
      "\<not> bytes_in PACKET_MARKER b1 \<longrightarrow> \<not> bytes_in PACKET_MARKER b2"
      "list_all (event_ok dec) evs2"
      by blast
    from False d(1) r(1)
    have "read_loop dec (chunk # chunks) buffer pc out = Inr (b2, pc2, out @ (evs1 @ evs2))"
      by simp
    moreover have "concat (map event_bytes (evs1 @ evs2)) @ b2 = buffer @ concat (chunk # chunks)"
    proof -
      have "concat (map event_bytes (evs1 @ evs2)) @ b2
          = concat (map event_bytes evs1) @ (concat (map event_bytes evs2) @ b2)"
        by simp
      also have "\<dots> = (concat (map event_bytes evs1) @ b1) @ concat chunks"
        by (simp only: r(2) append_assoc)
      also have "\<dots> = buffer @ concat (chunk # chunks)"
        by (simp add: d(2))
      finally show ?thesis .
    qed
    moreover from d(3) r(3) have "\<not> bytes_in PACKET_MARKER b2" by simp
    moreover from d(4) r(4) have "list_all (event_ok dec) (evs1 @ evs2)" by simp
    ultimately show ?thesis by blast
  qed
qed


lemma candidate_ok_shape:
  assumes "candidate_ok dec e"
  shows "\<exists>k body r. e = PacketSeen k (PACKET_MARKER @ body) r
    \<and> \<not> bytes_in PACKET_MARKER body
    \<and> parse_tuya_packet dec (PACKET_MARKER @ body) = Inr r
    \<and> (\<forall>pkt. r = Packet pkt \<longrightarrow>
          data pkt = slice_between (PACKET_MARKER @ body) 6 (6 + data_length pkt))"
proof (cases e)
  case (UnexpectedData u)
  with assms show ?thesis by simp
next
  case (PacketSeen k f r)
  with assms have p: "parse_tuya_packet dec f = Inr r" and t: "take 2 f = PACKET_MARKER"
    and n: "\<not> bytes_in PACKET_MARKER (drop 2 f)"
    by simp_all
  from t have f: "f = PACKET_MARKER @ drop 2 f"
    using append_take_drop_id [of 2 f] by simp
  have "data pkt = slice_between f 6 (6 + data_length pkt)" if "r = Packet pkt" for pkt
    using parse_tuya_packet_Packet [of dec f pkt] p that by simp
  with PacketSeen p n f show ?thesis
    by metis
qed

text \<open>
  C8. For a buffer in which the marker first occurs at index \<open>m\<close>, the loop
  \<open>while PACKET_MARKER in buffer\<close> prints the bytes before \<open>m\<close>, when there are some, as
  one dump of unexpected data and never parses them: the frames it hands to
  \<open>parse_tuya_packet\<close>, put one after the other, are exactly the buffer from index \<open>m\<close>
  on. Every such frame is the marker followed by bytes that contain no marker (the bytes
  up to the next marker or to the end of the buffer), and the payload of a decoded packet
  is a slice_between of its frame. A buffer without marker is left as it is and nothing is
  printed. For a whole stream of chunks, the dumps and frames printed in order, followed
  by the buffer that remains, are the stream itself; no dump contains a marker.
\<close>

theorem frame_extraction:
  "(bytes_find PACKET_MARKER buffer = None \<longrightarrow>
      drain_buffer dec buffer pc out = Inr (buffer, pc, out))
   \<and> (bytes_find PACKET_MARKER buffer = Some m \<longrightarrow>
        (\<exists>pevs. drain_buffer dec buffer pc out =
            Inr ([], pc + length pevs,
                 out @ (if m > 0 then [UnexpectedData (take m buffer)] else []) @ pevs)
          \<and> concat (map event_bytes pevs) = drop m buffer
          \<and> (\<forall>e \<in> set pevs. \<exists>k body r. e = PacketSeen k (PACKET_MARKER @ body) r
                \<and> \<not> bytes_in PACKET_MARKER body
                \<and> parse_tuya_packet dec (PACKET_MARKER @ body) = Inr r
                \<and> (\<forall>pkt. r = Packet pkt \<longrightarrow>
                      data pkt = slice_between (PACKET_MARKER @ body) 6 (6 + data_length pkt)))))
   \<and> (\<exists>buffer' pc' evs. read_and_hexdump_packets dec chunks = Inr (buffer', pc', evs)
        \<and> concat (map event_bytes evs) @ buffer' = concat chunks
        \<and> \<not> bytes_in PACKET_MARKER buffer'
        \<and> list_all (event_ok dec) evs)"
proof -
  have A: "bytes_find PACKET_MARKER buffer = None \<longrightarrow>
      drain_buffer dec buffer pc out = Inr (buffer, pc, out)"
    using drain_buffer_result [of buffer dec pc out] by blast
  have B: "\<exists>pevs. drain_buffer dec buffer pc out =
            Inr ([], pc + length pevs,
                 out @ (if m > 0 then [UnexpectedData (take m buffer)] else []) @ pevs)
          \<and> concat (map event_bytes pevs) = drop m buffer
          \<and> (\<forall>e \<in> set pevs. \<exists>k body r. e = PacketSeen k (PACKET_MARKER @ body) r
                \<and> \<not> bytes_in PACKET_MARKER body
                \<and> parse_tuya_packet dec (PACKET_MARKER @ body) = Inr r
                \<and> (\<forall>pkt. r = Packet pkt \<longrightarrow>
                      data pkt = slice_between (PACKET_MARKER @ body) 6 (6 + data_length pkt)))"
    if m: "bytes_find PACKET_MARKER buffer = Some m"
  proof -
    from drain_buffer_result [of buffer dec pc out] m
    obtain pevs where pevs: "drain_buffer dec buffer pc out =
        Inr ([], pc + length pevs,
             out @ (if m > 0 then [UnexpectedData (take m buffer)] else []) @ pevs)"
      "list_all (candidate_ok dec) pevs" "concat (map event_bytes pevs) = drop m buffer"
      by blast
    from pevs(2) have "\<forall>e \<in> set pevs. candidate_ok dec e"
      by (simp add: list_all_iff)
    with candidate_ok_shape
    have "\<forall>e \<in> set pevs. \<exists>k body r. e = PacketSeen k (PACKET_MARKER @ body) r
                \<and> \<not> bytes_in PACKET_MARKER body
                \<and> parse_tuya_packet dec (PACKET_MARKER @ body) = Inr r
                \<and> (\<forall>pkt. r = Packet pkt \<longrightarrow>
                      data pkt = slice_between (PACKET_MARKER @ body) 6 (6 + data_length pkt))"
      by blast
    with pevs(1,3) show ?thesis by blast
  qed
  have C: "\<exists>buffer' pc' evs. read_and_hexdump_packets dec chunks = Inr (buffer', pc', evs)
        \<and> concat (map event_bytes evs) @ buffer' = concat chunks
        \<and> \<not> bytes_in PACKET_MARKER buffer'
        \<and> list_all (event_ok dec) evs"
  proof -
    have "\<not> bytes_in PACKET_MARKER []"
      by (simp add: bytes_in_def PACKET_MARKER_def)
    with read_loop_result [of dec chunks "[]" 0 "[]"] show ?thesis
      by (auto simp: read_and_hexdump_packets_def)
  qed
  from A B C show ?thesis by blast
qed

theorem frame_extraction_witness:
  "bytes_find PACKET_MARKER [1, 2, 0x55, 0xAA, 3, 0x55, 0xAA, 0, 0, 0, 0, 0xFF] = Some 2
   \<and> drain_buffer keep_bytes [1, 2, 0x55, 0xAA, 3, 0x55, 0xAA, 0, 0, 0, 0, 0xFF] 0 [] =
       Inr ([], 2,
            [UnexpectedData [1, 2],
             PacketSeen 1 [0x55, 0xAA, 3] (PacketError (PacketTooShort [0x55, 0xAA, 3])),
             PacketSeen 2 [0x55, 0xAA, 0, 0, 0, 0, 0xFF]
               (Packet \<lparr>version = 0, command = 0, data_length = 0, data = [], checksum = 255,
                        parsed_data_units = []\<rparr>)])
   \<and> [0x55, 0xAA, 3] @ [0x55, 0xAA, 0, 0, 0, 0, 0xFF] =
       drop 2 [1, 2, 0x55, 0xAA, 3, 0x55, 0xAA, 0, 0, 0, 0, 0xFF :: byte]"
proof -
  let ?b = "[1, 2, 0x55, 0xAA, 3, 0x55, 0xAA, 0, 0, 0, 0, 0xFF] :: bytes"
  have m: "bytes_find PACKET_MARKER ?b = Some 2"
    by code_simp
  have run: "drain_buffer keep_bytes ?b 0 [] =
       Inr ([], 2,
            [UnexpectedData [1, 2],
             PacketSeen 1 [0x55, 0xAA, 3] (PacketError (PacketTooShort [0x55, 0xAA, 3])),
             PacketSeen 2 [0x55, 0xAA, 0, 0, 0, 0, 0xFF]
               (Packet \<lparr>version = 0, command = 0, data_length = 0, data = [], checksum = 255,
                        parsed_data_units = []\<rparr>)])"
    by code_simp
  from frame_extraction [of ?b keep_bytes 0 "[]" 2] m
  obtain pevs where pevs: "drain_buffer keep_bytes ?b 0 [] =
      Inr ([], 0 + length pevs, [] @ (if (2 :: nat) > 0 then [UnexpectedData (take 2 ?b)] else []) @ pevs)"
    "concat (map event_bytes pevs) = drop 2 ?b"
    by blast
  from pevs(1) run have "pevs =
      [PacketSeen 1 [0x55, 0xAA, 3] (PacketError (PacketTooShort [0x55, 0xAA, 3])),
       PacketSeen 2 [0x55, 0xAA, 0, 0, 0, 0, 0xFF]
         (Packet \<lparr>version = 0, command = 0, data_length = 0, data = [], checksum = 255,
                  parsed_data_units = []\<rparr>)]"
    by simp
  with pevs(2) have "[0x55, 0xAA, 3] @ [0x55, 0xAA, 0, 0, 0, 0, 0xFF] = drop 2 ?b"
    by simp
  with m run show ?thesis by simp
qed

end
